theory Spec2Isabelle
  imports Complex_Main "HOL-Library.Sublist" "HOL-Library.Multiset_Order"
begin

section \<open>Data model of deep-research.ts\<close>

text \<open>
  JavaScript strings are modelled as \<open>string\<close>, JavaScript numbers that hold the breadth
  and depth budgets (read with \<open>parseInt\<close> in run.ts) as \<open>int\<close>, arrays as lists.
  A rejected promise is a value \<open>Inl e\<close> of a sum type, a fulfilled one \<open>Inr v\<close>.
\<close>

record ResearchProgress =
  currentDepth :: int
  totalDepth :: int
  currentBreadth :: int
  totalBreadth :: int
  currentQuery :: "string option"
  totalQueries :: int
  completedQueries :: int

text \<open>
  \<open>Partial<ResearchProgress>\<close>: every field may be absent (\<open>None\<close>). The optional
  field \<open>currentQuery\<close> may also be present with the value \<open>undefined\<close>, which is
  \<open>Some None\<close>.
\<close>

record PartialProgress =
  upd_currentDepth :: "int option"
  upd_totalDepth :: "int option"
  upd_currentBreadth :: "int option"
  upd_totalBreadth :: "int option"
  upd_currentQuery :: "string option option"
  upd_totalQueries :: "int option"
  upd_completedQueries :: "int option"

record ResearchResult =
  learnings :: "string list"
  visitedUrls :: "string list"
  sourceContents :: "string list"

text \<open>One element of the schema of \<open>generateSerpQueries\<close>.\<close>

record SerpQuery =
  query :: string
  researchGoal :: string

text \<open>
  The two fields of an item of \<open>SearchResponse.data\<close> that the code reads; both
  are optional in the search provider's type.
\<close>

record SearchItem =
  url :: "string option"
  markdown :: "string option"

text \<open>The object returned by the extraction call inside \<open>processSerpResult\<close>.\<close>

record Extraction =
  learnings_x :: "string list"
  followUpQuestions :: "string list"

datatype Severity = HIGH | MEDIUM | LOW

record UnsupportedFact =
  claim :: string
  issue :: string
  severity :: Severity

record FactCheckResult =
  unsupportedFacts :: "UnsupportedFact list"
  overallAssessment :: string

text \<open>
  What a collaborator call can throw. The \<open>catch\<close> block of a branch only tells an
  error whose message includes \<open>Timeout\<close> from any other one.
\<close>

datatype error = TimeoutError | ProviderError

text \<open>
  The external collaborators. Each call reads and changes the outside world \<open>'w\<close>
  (a language model and a search provider answer differently from call to call) and
  either throws or returns. \<open>trimPrompt\<close> is imported from ./ai/providers, which is not
  part of the sources at hand, and is taken as a parameter.
\<close>

record 'w Collaborators =
  generateQueries :: "string \<Rightarrow> int \<Rightarrow> string list option \<Rightarrow> 'w \<Rightarrow> (error + SerpQuery list) \<times> 'w"
  search :: "string \<Rightarrow> 'w \<Rightarrow> (error + SearchItem list) \<times> 'w"
  generateLearnings :: "string \<Rightarrow> string list \<Rightarrow> 'w \<Rightarrow> (error + Extraction) \<times> 'w"
  generateReport :: "string \<Rightarrow> string \<Rightarrow> 'w \<Rightarrow> (error + string) \<times> 'w"
  generateFactCheck :: "string \<Rightarrow> string \<Rightarrow> 'w \<Rightarrow> (error + FactCheckResult) \<times> 'w"
  trimPrompt :: "string \<Rightarrow> nat \<Rightarrow> string"

section \<open>Array and string helpers\<close>

text \<open>\<open>Array.prototype.slice(0, n)\<close>: a negative end counts from the end of the array.\<close>

definition slice0 :: "int \<Rightarrow> 'a list \<Rightarrow> 'a list" where
  "slice0 n xs = (if 0 \<le> n then take (nat n) xs else take (length xs - nat (- n)) xs)"

text \<open>
  lodash's \<open>compact\<close> on an array of optional strings drops the falsy entries:
  \<open>undefined\<close> and the empty string.
\<close>

fun compact :: "string option list \<Rightarrow> string list" where
  "compact [] = []"
| "compact (None # xs) = compact xs"
| "compact (Some s # xs) = (if s = [] then compact xs else s # compact xs)"

text \<open>\<open>Array.prototype.join\<close>.\<close>

fun join :: "string \<Rightarrow> string list \<Rightarrow> string" where
  "join sep [] = []"
| "join sep [x] = x"
| "join sep (x # y # ys) = x @ sep @ join sep (y # ys)"

text \<open>
  \<open>[...new Set(xs)]\<close>: the elements are added to the set one after another, a value
  already present is skipped, and the spread lists the set in insertion order.
\<close>

definition setAdd :: "'a \<Rightarrow> 'a list \<Rightarrow> 'a list" where
  "setAdd x seen = (if x \<in> set seen then seen else seen @ [x])"

definition spreadSet :: "'a list \<Rightarrow> 'a list" where
  "spreadSet xs = fold setAdd xs []"

text \<open>
  \<open>String.prototype.trim\<close>, on the white space that one byte can hold (space, tab,
  line feed, vertical tab, form feed, carriage return).
\<close>

definition isSpace :: "char \<Rightarrow> bool" where
  "isSpace c = (c \<in> set [CHR '' '', CHR 0x09, CHR 0x0A, CHR 0x0B, CHR 0x0C, CHR 0x0D])"

definition trim :: "string \<Rightarrow> string" where
  "trim s = rev (dropWhile isSpace (rev (dropWhile isSpace s)))"

section \<open>Result merge (lines 352 to 356)\<close>

definition mergeResults :: "ResearchResult list \<Rightarrow> ResearchResult" where
  "mergeResults results =
     \<lparr> learnings = spreadSet (concat (map learnings results)),
       visitedUrls = spreadSet (concat (map visitedUrls results)),
       sourceContents = spreadSet (concat (map sourceContents results)) \<rparr>"

definition emptyResult :: ResearchResult where
  "emptyResult = \<lparr> learnings = [], visitedUrls = [], sourceContents = [] \<rparr>"

section \<open>Progress record\<close>

text \<open>\<open>Object.assign(progress, update)\<close>: each property that \<open>update\<close> has is written.\<close>

definition assign :: "ResearchProgress \<Rightarrow> PartialProgress \<Rightarrow> ResearchProgress" where
  "assign progress update =
     \<lparr> currentDepth = (case upd_currentDepth update of None \<Rightarrow> currentDepth progress | Some v \<Rightarrow> v),
       totalDepth = (case upd_totalDepth update of None \<Rightarrow> totalDepth progress | Some v \<Rightarrow> v),
       currentBreadth = (case upd_currentBreadth update of None \<Rightarrow> currentBreadth progress | Some v \<Rightarrow> v),
       totalBreadth = (case upd_totalBreadth update of None \<Rightarrow> totalBreadth progress | Some v \<Rightarrow> v),
       currentQuery = (case upd_currentQuery update of None \<Rightarrow> currentQuery progress | Some v \<Rightarrow> v),
       totalQueries = (case upd_totalQueries update of None \<Rightarrow> totalQueries progress | Some v \<Rightarrow> v),
       completedQueries = (case upd_completedQueries update of None \<Rightarrow> completedQueries progress | Some v \<Rightarrow> v) \<rparr>"

definition noUpdate :: PartialProgress where
  "noUpdate = \<lparr> upd_currentDepth = None, upd_totalDepth = None, upd_currentBreadth = None,
     upd_totalBreadth = None, upd_currentQuery = None, upd_totalQueries = None,
     upd_completedQueries = None \<rparr>"

section \<open>The collaborator wrappers\<close>

text \<open>
  Each wrapper prepares the arguments of one collaborator call and passes the answer on.
  The prompt texts, the schemas and the fixed options of the calls (a search timeout of
  15000, at most 5 results, markdown format, an extraction timeout of 60000) belong to
  the collaborators. Calls of \<open>log\<close> write to the console through the output manager
  and are left out: nothing in this file reads the console.
\<close>

definition generateSerpQueries ::
  "'w Collaborators \<Rightarrow> string \<Rightarrow> int option \<Rightarrow> string list option \<Rightarrow> 'w \<Rightarrow> (error + SerpQuery list) \<times> 'w" where
  "generateSerpQueries C q numQueries ls w =
     (let n = (case numQueries of None \<Rightarrow> 3 | Some k \<Rightarrow> k) in
      case generateQueries C q n ls w of
        (Inl e, w') \<Rightarrow> (Inl e, w')
      | (Inr queries, w') \<Rightarrow> (Inr (slice0 n queries), w'))"

definition processSerpResult ::
  "'w Collaborators \<Rightarrow> string \<Rightarrow> SearchItem list \<Rightarrow> 'w \<Rightarrow> (error + Extraction \<times> string list) \<times> 'w" where
  "processSerpResult C q result w =
     (let contents = map (\<lambda>content. trimPrompt C content 25000) (compact (map markdown result)) in
      case generateLearnings C q contents w of
        (Inl e, w') \<Rightarrow> (Inl e, w')
      | (Inr res, w') \<Rightarrow> (Inr (res, contents), w'))"

definition factCheckFallback :: FactCheckResult where
  "factCheckFallback =
     \<lparr> unsupportedFacts = [],
       overallAssessment = ''Unable to fact check - no source content available'' \<rparr>"

text \<open>
  \<open>sourceContents\<close> is an optional parameter of \<open>factCheck\<close> with the default \<open>[]\<close>.
\<close>

definition factCheck ::
  "'w Collaborators \<Rightarrow> string \<Rightarrow> string list option \<Rightarrow> 'w \<Rightarrow> (error + FactCheckResult) \<times> 'w" where
  "factCheck C report sourceContentsOpt w =
     (let sourceContents = (case sourceContentsOpt of None \<Rightarrow> [] | Some cs \<Rightarrow> cs) in
      if length sourceContents = 0 then (Inr factCheckFallback, w)
      else
        let contentsString = trimPrompt C
              (join ''\<newline>'' (map (\<lambda>content. ''<content>\<newline>'' @ content @ ''\<newline></content>'') sourceContents))
              200000
        in generateFactCheck C report contentsString w)"

definition severityString :: "Severity \<Rightarrow> string" where
  "severityString s = (case s of HIGH \<Rightarrow> ''HIGH'' | MEDIUM \<Rightarrow> ''MEDIUM'' | LOW \<Rightarrow> ''LOW'')"

definition factLine :: "UnsupportedFact \<Rightarrow> string" where
  "factLine f = ''**['' @ severityString (severity f) @ '']** '' @ claim f @ ''\<newline>- '' @ issue f"

definition factCheckSection :: "FactCheckResult \<Rightarrow> string" where
  "factCheckSection factCheckResults =
     ''\<newline>\<newline>## Fact Check\<newline>\<newline>'' @ overallAssessment factCheckResults @ ''\<newline>\<newline>'' @
     (if length (unsupportedFacts factCheckResults) > 0
      then ''### Potential Issues\<newline>\<newline>'' @
           join ''\<newline>\<newline>'' (map factLine (unsupportedFacts factCheckResults))
      else ''### No Factual Issues Found\<newline>\<newline>All claims in the report appear to be well-supported by the source material.'')"

definition urlsSection :: "string list \<Rightarrow> string" where
  "urlsSection urls = ''\<newline>\<newline>## Sources\<newline>\<newline>'' @ join ''\<newline>'' (map (\<lambda>u. ''- '' @ u) urls)"

definition writeFinalReport ::
  "'w Collaborators \<Rightarrow> string \<Rightarrow> string list \<Rightarrow> string list \<Rightarrow> string list \<Rightarrow> 'w \<Rightarrow> (error + string) \<times> 'w" where
  "writeFinalReport C prompt ls urls contents w =
     (let learningsString = trimPrompt C
            (join ''\<newline>'' (map (\<lambda>learning. ''<learning>\<newline>'' @ learning @ ''\<newline></learning>'') ls))
            150000
      in case generateReport C prompt learningsString w of
           (Inl e, w1) \<Rightarrow> (Inl e, w1)
         | (Inr reportMarkdown, w1) \<Rightarrow>
             (case factCheck C reportMarkdown (Some contents) w1 of
                (Inl e, w2) \<Rightarrow> (Inl e, w2)
              | (Inr factCheckResults, w2) \<Rightarrow>
                  (Inr (reportMarkdown @ factCheckSection factCheckResults @ urlsSection urls), w2)))"

section \<open>The recursive research\<close>

text \<open>
  What one call of \<open>deepResearch\<close> and its recursive calls do to their surroundings is
  kept in a state: the outside world of the collaborators, the three arrays
  \<open>learnings\<close>, \<open>visitedUrls\<close> and \<open>sourceContents\<close> that every branch of the recursion
  shares and pushes to, and a journal of what happened. An entry of the journal names the
  invocation it comes from by its position in the recursion tree (the indices of the
  branches from the top-level call down to it); the program itself never reads the journal.
\<close>

datatype event =
    Generated "nat list" int int
  | Searched "nat list" string
  | Progress "nat list" ResearchProgress
  | Terminal "nat list" string

record 'w state =
  world :: 'w
  acc :: ResearchResult
  events :: "event list"

definition record_event :: "event \<Rightarrow> 'w state \<Rightarrow> 'w state" where
  "record_event e st = st\<lparr> events := events st @ [e] \<rparr>"

text \<open>
  \<open>reportProgress\<close> (lines 253 to 256). \<open>onProgress\<close> is optional: the flag says whether
  the caller passed one, and each of its invocations is journalled with the progress
  object as it is at that moment. The callback is taken to return; one that may throw
  is part of the section on answers in any order.
\<close>

definition reportProgress ::
  "bool \<Rightarrow> nat list \<Rightarrow> PartialProgress \<Rightarrow> ResearchProgress \<Rightarrow> 'w state \<Rightarrow> ResearchProgress \<times> 'w state" where
  "reportProgress onProgress pos update progress st =
     (let progress' = assign progress update in
      (progress', if onProgress then record_event (Progress pos progress') st else st))"

definition initialProgress :: "int \<Rightarrow> int \<Rightarrow> ResearchProgress" where
  "initialProgress breadth depth =
     \<lparr> currentDepth = depth, totalDepth = depth, currentBreadth = breadth, totalBreadth = breadth,
       currentQuery = None, totalQueries = 0, completedQueries = 0 \<rparr>"

text \<open>\<open>Math.ceil(breadth / 2)\<close> and \<open>depth - 1\<close> (lines 292 and 293).\<close>

definition newBreadth :: "int \<Rightarrow> int" where
  "newBreadth breadth = \<lceil>real_of_int breadth / 2\<rceil>"

definition newDepth :: "int \<Rightarrow> int" where
  "newDepth depth = depth - 1"

definition nextQuery :: "SerpQuery \<Rightarrow> Extraction \<Rightarrow> string" where
  "nextQuery serpQuery processedResult =
     trim (''\<newline>            Previous research goal: '' @ researchGoal serpQuery @
           ''\<newline>            Follow-up research directions: '' @
           concat (map (\<lambda>q. ''\<newline>'' @ q) (followUpQuestions processedResult)) @
           ''\<newline>          '')"

text \<open>
  A branch that stops returns the three shared arrays themselves, not copies of them;
  a branch that recurses returns the fresh arrays its recursive call built, and a branch
  that caught an error returns three new empty arrays.
\<close>

datatype branchResult = SharedArrays | Fresh ResearchResult

fun deref :: "ResearchResult \<Rightarrow> branchResult \<Rightarrow> ResearchResult" where
  "deref a SharedArrays = a"
| "deref a (Fresh r) = r"

text \<open>\<open>Promise.all\<close>: rejected with the first rejection, else fulfilled with all values.\<close>

fun promiseAll :: "(error + 'a) list \<Rightarrow> error + 'a list" where
  "promiseAll [] = Inr []"
| "promiseAll (Inl e # ps) = Inl e"
| "promiseAll (Inr v # ps) = (case promiseAll ps of Inl e \<Rightarrow> Inl e | Inr vs \<Rightarrow> Inr (v # vs))"

definition pushAll :: "Extraction \<Rightarrow> SearchItem list \<Rightarrow> string list \<Rightarrow> ResearchResult \<Rightarrow> ResearchResult" where
  "pushAll processedResult result contents a =
     \<lparr> learnings = learnings a @ learnings_x processedResult,
       visitedUrls = visitedUrls a @ compact (map url result),
       sourceContents = sourceContents a @ contents \<rparr>"

text \<open>
  \<open>deepResearch\<close> (lines 227 to 357). The branches of one invocation are run one after
  another in the order of \<open>serpQueries\<close>, each to its end before the next starts; this
  is one of the schedules the program can follow (the searches of the later branches
  answering after the earlier branches are done), and the only one when every invocation
  has a single branch. It serves for what does not depend on the schedule: the levels,
  the breadths and depths, the counts that one invocation reports, the truncation. What
  does depend on it, the arrays that a call returns, is the subject of the section on
  answers in any order, and the permits of the limiter of a section of their own. \<open>pos\<close> is the position of the invocation and \<open>i\<close> the index of the branch, for
  the journal only. \<open>runBranches\<close> is the \<open>serpQueries.map(...)\<close> of lines 272 to 349
  and \<open>branch\<close> the function passed to it. A rejected recursive call rejects its branch
  (the \<open>return\<close> of line 312 does not await inside the \<open>try\<close>), and then the whole
  invocation, while the other branches still run.
\<close>

function (sequential)
  deepResearch :: "'w Collaborators \<Rightarrow> bool \<Rightarrow> nat list \<Rightarrow> string \<Rightarrow> int \<Rightarrow> int \<Rightarrow> 'w state \<Rightarrow> (error + ResearchResult) \<times> 'w state"
  and runBranches :: "'w Collaborators \<Rightarrow> bool \<Rightarrow> nat list \<Rightarrow> int \<Rightarrow> int \<Rightarrow> nat \<Rightarrow> SerpQuery list \<Rightarrow> ResearchProgress \<Rightarrow> 'w state \<Rightarrow> (error + branchResult) list \<times> ResearchProgress \<times> 'w state"
  and branch :: "'w Collaborators \<Rightarrow> bool \<Rightarrow> nat list \<Rightarrow> int \<Rightarrow> int \<Rightarrow> nat \<Rightarrow> SerpQuery \<Rightarrow> ResearchProgress \<Rightarrow> 'w state \<Rightarrow> (error + branchResult) \<times> ResearchProgress \<times> 'w state"
where
  "deepResearch C onProgress pos q breadth depth st =
     (case generateSerpQueries C q (Some breadth) (Some (learnings (acc st))) (world st) of
        (Inl e, w1) \<Rightarrow> (Inl e, record_event (Generated pos breadth depth) (st\<lparr>world := w1\<rparr>))
      | (Inr serpQueries, w1) \<Rightarrow>
          (case reportProgress onProgress pos
                  (noUpdate\<lparr>upd_totalQueries := Some (int (length serpQueries)),
                            upd_currentQuery := Some (case serpQueries of [] \<Rightarrow> None | s # _ \<Rightarrow> Some (query s))\<rparr>)
                  (initialProgress breadth depth)
                  (record_event (Generated pos breadth depth) (st\<lparr>world := w1\<rparr>)) of
             (progress, st1) \<Rightarrow>
               (case runBranches C onProgress pos breadth depth 0 serpQueries progress st1 of
                  (results, progress', st2) \<Rightarrow>
                    (case promiseAll results of
                       Inl e \<Rightarrow> (Inl e, st2)
                     | Inr rs \<Rightarrow> (Inr (mergeResults (map (deref (acc st2)) rs)), st2)))))"
| "runBranches C onProgress pos breadth depth i [] progress st = ([], progress, st)"
| "runBranches C onProgress pos breadth depth i (serpQuery # rest) progress st =
     (case branch C onProgress pos breadth depth i serpQuery progress st of
        (r, progress1, st1) \<Rightarrow>
          (case runBranches C onProgress pos breadth depth (Suc i) rest progress1 st1 of
             (rs, progress2, st2) \<Rightarrow> (r # rs, progress2, st2)))"
| "branch C onProgress pos breadth depth i serpQuery progress st =
     (case search C (query serpQuery) (world st) of
        (Inl e, w1) \<Rightarrow>
          (Inr (Fresh emptyResult), progress, record_event (Searched pos (query serpQuery)) (st\<lparr>world := w1\<rparr>))
      | (Inr result, w1) \<Rightarrow>
          (case processSerpResult C (query serpQuery) result w1 of
             (Inl e, w2) \<Rightarrow>
               (Inr (Fresh emptyResult), progress, record_event (Searched pos (query serpQuery)) (st\<lparr>world := w2\<rparr>))
           | (Inr (processedResult, contents), w2) \<Rightarrow>
               (let st1 = record_event (Searched pos (query serpQuery))
                            (st\<lparr>world := w2, acc := pushAll processedResult result contents (acc st)\<rparr>)
                in if newDepth depth > 0 then
                     (case reportProgress onProgress pos
                             (noUpdate\<lparr>upd_currentDepth := Some (newDepth depth),
                                       upd_currentBreadth := Some (newBreadth breadth),
                                       upd_completedQueries := Some (completedQueries progress + 1),
                                       upd_currentQuery := Some (Some (query serpQuery))\<rparr>)
                             progress st1 of
                        (progress1, st2) \<Rightarrow>
                          (case deepResearch C onProgress (pos @ [i]) (nextQuery serpQuery processedResult)
                                  (newBreadth breadth) (newDepth depth) st2 of
                             (Inl e, st3) \<Rightarrow> (Inl e, progress1, st3)
                           | (Inr r, st3) \<Rightarrow> (Inr (Fresh r), progress1, st3)))
                   else
                     (case reportProgress onProgress pos
                             (noUpdate\<lparr>upd_currentDepth := Some 0,
                                       upd_completedQueries := Some (completedQueries progress + 1),
                                       upd_currentQuery := Some (Some (query serpQuery))\<rparr>)
                             progress st1 of
                        (progress1, st2) \<Rightarrow>
                          (Inr SharedArrays, progress1, record_event (Terminal pos (query serpQuery)) st2)))))"
  by pat_completeness auto
termination
  by (relation "inv_image (less_than <*lex*> less_than <*lex*> less_than)
        (\<lambda>x. case x of
            Inl (C, onProgress, pos, q, breadth, depth, st) \<Rightarrow> (nat depth, 2::nat, 0::nat)
          | Inr (Inl (C, onProgress, pos, breadth, depth, i, qs, progress, st)) \<Rightarrow> (nat depth, 1, length qs)
          | Inr (Inr (C, onProgress, pos, breadth, depth, i, sq, progress, st)) \<Rightarrow> (nat depth, 0, 0))")
     (auto simp: newDepth_def)

text \<open>A top-level call that leaves the three array parameters to their default \<open>[]\<close>.\<close>

definition freshState :: "'w \<Rightarrow> 'w state" where
  "freshState w = \<lparr> world = w, acc = emptyResult, events = [] \<rparr>"

section \<open>Reading the journal\<close>

definition emitted :: "'w state \<Rightarrow> 'w state \<Rightarrow> event list" where
  "emitted st st' = drop (length (events st)) (events st')"

fun position :: "event \<Rightarrow> nat list" where
  "position (Generated p b d) = p"
| "position (Searched p q) = p"
| "position (Progress p pr) = p"
| "position (Terminal p q) = p"

text \<open>The progress objects the sink was called with, in order: all, and those of one invocation.\<close>

fun notification :: "event \<Rightarrow> ResearchProgress list" where
  "notification (Progress p pr) = [pr]"
| "notification _ = []"

definition notifications :: "event list \<Rightarrow> ResearchProgress list" where
  "notifications es = concat (map notification es)"

definition notificationsOf :: "nat list \<Rightarrow> event list \<Rightarrow> ResearchProgress list" where
  "notificationsOf p es = notifications (filter (\<lambda>e. position e = p) es)"

text \<open>The queries the branches of invocation \<open>p\<close> searched for, in order.\<close>

fun searchedQuery :: "event \<Rightarrow> string list" where
  "searchedQuery (Searched p q) = [q]"
| "searchedQuery _ = []"

definition searchedBy :: "nat list \<Rightarrow> event list \<Rightarrow> string list" where
  "searchedBy p es = concat (map searchedQuery (filter (\<lambda>e. position e = p) es))"

fun isTerminal :: "event \<Rightarrow> bool" where
  "isTerminal (Terminal p q) = True"
| "isTerminal _ = False"

fun isSearched :: "event \<Rightarrow> bool" where
  "isSearched (Searched p q) = True"
| "isSearched _ = False"

text \<open>
  The search level of an entry, counted from 1 for the top-level invocation at
  position \<open>p0\<close>.
\<close>

definition level :: "nat list \<Rightarrow> event \<Rightarrow> nat" where
  "level p0 e = length (position e) - length p0 + 1"

section \<open>The requests the collaborators receive\<close>

text \<open>
  A \<open>Generated\<close> entry of the journal stands for one call of the query generator and a
  \<open>Searched\<close> entry for one call of the search provider. To compare the journal with
  the calls that are really made, the collaborators may keep a log of the requests they
  receive in their world: \<open>logsRequests lg C\<close> says that \<open>lg\<close> reads such a log,
  to which each call of the generator and of the search provider appends its request
  (whether it returns or throws) and which the extraction leaves alone. \<open>logging C\<close>
  adds such a log to any collaborators \<open>C\<close>, which otherwise answer as before.
\<close>

datatype request = QueriesRequested int | SearchRequested string

fun requestOf :: "event \<Rightarrow> request list" where
  "requestOf (Generated p b d) = [QueriesRequested b]"
| "requestOf (Searched p q) = [SearchRequested q]"
| "requestOf _ = []"

definition requests :: "event list \<Rightarrow> request list" where
  "requests es = concat (map requestOf es)"

definition logsRequests :: "('w \<Rightarrow> request list) \<Rightarrow> 'w Collaborators \<Rightarrow> bool" where
  "logsRequests lg C =
     ((\<forall>q n ls w. lg (snd (generateQueries C q n ls w)) = lg w @ [QueriesRequested n]) \<and>
      (\<forall>q w. lg (snd (search C q w)) = lg w @ [SearchRequested q]) \<and>
      (\<forall>q contents w. lg (snd (generateLearnings C q contents w)) = lg w))"

definition logging :: "'w Collaborators \<Rightarrow> ('w \<times> request list) Collaborators" where
  "logging C =
     \<lparr> generateQueries = (\<lambda>q n ls wl.
          case generateQueries C q n ls (fst wl) of (r, w') \<Rightarrow> (r, (w', snd wl @ [QueriesRequested n]))),
       search = (\<lambda>q wl.
          case search C q (fst wl) of (r, w') \<Rightarrow> (r, (w', snd wl @ [SearchRequested q]))),
       generateLearnings = (\<lambda>q contents wl.
          case generateLearnings C q contents (fst wl) of (r, w') \<Rightarrow> (r, (w', snd wl))),
       generateReport = (\<lambda>prompt ls wl.
          case generateReport C prompt ls (fst wl) of (r, w') \<Rightarrow> (r, (w', snd wl))),
       generateFactCheck = (\<lambda>report contents wl.
          case generateFactCheck C report contents (fst wl) of (r, w') \<Rightarrow> (r, (w', snd wl))),
       trimPrompt = trimPrompt C \<rparr>"

text \<open>A state of the collaborators with the log \<open>l\<close> added to their world.\<close>

definition withLog :: "request list \<Rightarrow> 'w state \<Rightarrow> ('w \<times> request list) state" where
  "withLog l st = \<lparr> world = (world st, l), acc = acc st, events = events st \<rparr>"

section \<open>The concurrency gate\<close>

text \<open>
  Line 269 creates a limiter \<open>pLimit(ConcurrencyLimit)\<close> in every invocation of
  \<open>deepResearch\<close>, and lines 272 and 273 queue the branches of that invocation on it.
  p-limit starts a queued function when fewer than \<open>ConcurrencyLimit\<close> functions of the
  same limiter are running, and counts a function as running until the promise it
  returned has settled. A branch that recurses returns the promise of its recursive call
  (line 312), so it keeps its permit until that call has returned. A recursive call is
  rejected as soon as one of its branches is (\<open>Promise.all\<close>), while its other branches
  go on behind it.

  The state of the gates is the tree of the invocations with the state of each branch;
  a step is one branch of one invocation moving on.
\<close>

definition ConcurrencyLimit :: nat where
  "ConcurrencyLimit = 2"

datatype branchState =
    Queued
  | Running
  | Awaiting invocation
  | Fulfilled
  | Rejected
  | RejectedBehind invocation
and invocation = Invocation int int "branchState list"

fun branches :: "invocation \<Rightarrow> branchState list" where
  "branches (Invocation breadth depth bs) = bs"

fun holdsPermit :: "branchState \<Rightarrow> bool" where
  "holdsPermit Running = True"
| "holdsPermit (Awaiting c) = True"
| "holdsPermit _ = False"

definition activeCount :: "branchState list \<Rightarrow> nat" where
  "activeCount bs = length (filter holdsPermit bs)"

fun isRejected :: "branchState \<Rightarrow> bool" where
  "isRejected Rejected = True"
| "isRejected (RejectedBehind c) = True"
| "isRejected _ = False"

text \<open>
  \<open>start\<close>: the limiter admits a queued branch. \<open>settle\<close>: a running branch returns,
  from the \<open>else\<close> of line 321 or from the \<open>catch\<close>. \<open>recurse\<close>: a running branch
  calls \<open>deepResearch\<close>, whose generator returns \<open>queries\<close>. \<open>throw\<close>: the generator
  of that call throws instead. \<open>inner\<close> and \<open>behind\<close>: a step inside a recursive
  call. \<open>return\<close> and \<open>reject\<close>: the recursive call returns or is rejected.
\<close>

inductive gateStep :: "invocation \<Rightarrow> invocation \<Rightarrow> bool" where
  start: "i < length bs \<Longrightarrow> bs ! i = Queued \<Longrightarrow> activeCount bs < ConcurrencyLimit \<Longrightarrow>
      gateStep (Invocation breadth depth bs) (Invocation breadth depth (bs[i := Running]))"
| settle: "i < length bs \<Longrightarrow> bs ! i = Running \<Longrightarrow>
      gateStep (Invocation breadth depth bs) (Invocation breadth depth (bs[i := Fulfilled]))"
| recurse: "i < length bs \<Longrightarrow> bs ! i = Running \<Longrightarrow> newDepth depth > 0 \<Longrightarrow>
      gateStep (Invocation breadth depth bs)
        (Invocation breadth depth
           (bs[i := Awaiting (Invocation (newBreadth breadth) (newDepth depth)
                                (replicate (length (slice0 (newBreadth breadth) (queries :: SerpQuery list))) Queued))]))"
| throw: "i < length bs \<Longrightarrow> bs ! i = Running \<Longrightarrow> newDepth depth > 0 \<Longrightarrow>
      gateStep (Invocation breadth depth bs) (Invocation breadth depth (bs[i := Rejected]))"
| inner: "i < length bs \<Longrightarrow> bs ! i = Awaiting c \<Longrightarrow> gateStep c c' \<Longrightarrow>
      gateStep (Invocation breadth depth bs) (Invocation breadth depth (bs[i := Awaiting c']))"
| return: "i < length bs \<Longrightarrow> bs ! i = Awaiting c \<Longrightarrow> list_all (\<lambda>b. b = Fulfilled) (branches c) \<Longrightarrow>
      gateStep (Invocation breadth depth bs) (Invocation breadth depth (bs[i := Fulfilled]))"
| reject: "i < length bs \<Longrightarrow> bs ! i = Awaiting c \<Longrightarrow> list_ex isRejected (branches c) \<Longrightarrow>
      gateStep (Invocation breadth depth bs) (Invocation breadth depth (bs[i := RejectedBehind c]))"
| behind: "i < length bs \<Longrightarrow> bs ! i = RejectedBehind c \<Longrightarrow> gateStep c c' \<Longrightarrow>
      gateStep (Invocation breadth depth bs) (Invocation breadth depth (bs[i := RejectedBehind c']))"

code_pred gateStep .

text \<open>The top-level call with its branches queued, none admitted yet.\<close>

definition topLevel :: "int \<Rightarrow> int \<Rightarrow> SerpQuery list \<Rightarrow> invocation" where
  "topLevel breadth depth queries =
     Invocation breadth depth (replicate (length (slice0 breadth queries)) Queued)"

text \<open>The permits held in the whole tree, and the bound of each limiter taken alone.\<close>

fun heldPermits :: "invocation \<Rightarrow> nat"
  and heldBelow :: "branchState \<Rightarrow> nat" where
  "heldPermits (Invocation breadth depth bs) = activeCount bs + sum_list (map heldBelow bs)"
| "heldBelow (Awaiting c) = heldPermits c"
| "heldBelow (RejectedBehind c) = heldPermits c"
| "heldBelow _ = 0"

fun everyGate :: "invocation \<Rightarrow> bool"
  and everyGateBelow :: "branchState \<Rightarrow> bool" where
  "everyGate (Invocation breadth depth bs) = (activeCount bs \<le> ConcurrencyLimit \<and> list_all everyGateBelow bs)"
| "everyGateBelow (Awaiting c) = everyGate c"
| "everyGateBelow (RejectedBehind c) = everyGate c"
| "everyGateBelow _ = True"

section \<open>Concrete collaborators\<close>

text \<open>
  Collaborators for running the definitions on examples. Their world is the number of
  collaborator calls made so far. Asked while there are no learnings yet, the generator
  proposes the queries \<open>Q1\<close> and \<open>Q2\<close>, later on \<open>Q2\<close> alone; the search for
  \<open>Q1\<close> returns one page and every other search times out.
\<close>

definition scenario :: "nat Collaborators" where
  "scenario =
     \<lparr> generateQueries = (\<lambda>q n ls w.
          (Inr (if ls = Some [] \<or> ls = None
                then [\<lparr>query = ''Q1'', researchGoal = ''G1''\<rparr>, \<lparr>query = ''Q2'', researchGoal = ''G2''\<rparr>]
                else [\<lparr>query = ''Q2'', researchGoal = ''G2''\<rparr>]), Suc w)),
       search = (\<lambda>q w.
          (if q = ''Q1'' then Inr [\<lparr>url = Some ''http://u1'', markdown = Some ''page one''\<rparr>]
           else Inl TimeoutError, Suc w)),
       generateLearnings = (\<lambda>q contents w.
          (Inr \<lparr>learnings_x = [''L1''], followUpQuestions = [''F1'']\<rparr>, Suc w)),
       generateReport = (\<lambda>prompt ls w. (Inr ''Body'', Suc w)),
       generateFactCheck = (\<lambda>report contents w.
          (Inr \<lparr>unsupportedFacts = [\<lparr>claim = ''c'', issue = ''i'', severity = HIGH\<rparr>],
                 overallAssessment = ''A''\<rparr>, Suc w)),
       trimPrompt = (\<lambda>s n. take n s) \<rparr>"

text \<open>
  Collaborators that never fail: the generator returns as many queries as it is asked
  for, every search returns one page and every extraction one learning.
\<close>

definition steady :: "nat Collaborators" where
  "steady =
     \<lparr> generateQueries = (\<lambda>q n ls w. (Inr (replicate (nat n) \<lparr>query = ''Q'', researchGoal = ''G''\<rparr>), Suc w)),
       search = (\<lambda>q w. (Inr [\<lparr>url = Some ''http://u'', markdown = Some ''page''\<rparr>], Suc w)),
       generateLearnings = (\<lambda>q contents w.
          (Inr \<lparr>learnings_x = [''L''], followUpQuestions = []\<rparr>, Suc w)),
       generateReport = (\<lambda>prompt ls w. (Inr ''Body'', Suc w)),
       generateFactCheck = (\<lambda>report contents w.
          (Inr \<lparr>unsupportedFacts = [], overallAssessment = ''A''\<rparr>, Suc w)),
       trimPrompt = (\<lambda>s n. take n s) \<rparr>"

section \<open>Notions for the statements\<close>

text \<open>The three updates that \<open>deepResearch\<close> passes to \<open>reportProgress\<close>, by name.\<close>

definition firstUpdate :: "SerpQuery list \<Rightarrow> PartialProgress" where
  "firstUpdate serpQueries =
     noUpdate\<lparr>upd_totalQueries := Some (int (length serpQueries)),
              upd_currentQuery := Some (case serpQueries of [] \<Rightarrow> None | s # _ \<Rightarrow> Some (query s))\<rparr>"

definition deeperUpdate :: "int \<Rightarrow> int \<Rightarrow> ResearchProgress \<Rightarrow> SerpQuery \<Rightarrow> PartialProgress" where
  "deeperUpdate b d pr sq =
     noUpdate\<lparr>upd_currentDepth := Some (newDepth d),
              upd_currentBreadth := Some (newBreadth b),
              upd_completedQueries := Some (completedQueries pr + 1),
              upd_currentQuery := Some (Some (query sq))\<rparr>"

definition stopUpdate :: "ResearchProgress \<Rightarrow> SerpQuery \<Rightarrow> PartialProgress" where
  "stopUpdate pr sq =
     noUpdate\<lparr>upd_currentDepth := Some 0,
              upd_completedQueries := Some (completedQueries pr + 1),
              upd_currentQuery := Some (Some (query sq))\<rparr>"

text \<open>
  What holds of every journal entry that an invocation at position \<open>pos\<close>, called with
  breadth \<open>b\<close> and depth \<open>d\<close>, and the invocations below it write: the entry lies
  \<open>n\<close> levels below \<open>pos\<close>; a generator call there asks for the breadth halved \<open>n\<close>
  times and has the depth lowered by \<open>n\<close>; a search happens at most \<open>max 1 d\<close> levels
  down and a branch stops exactly there; a progress object carries the breadth and depth
  of its own invocation as totals.
\<close>

definition inSubtree :: "nat list \<Rightarrow> int \<Rightarrow> int \<Rightarrow> event \<Rightarrow> bool" where
  "inSubtree pos b d e =
     (prefix pos (position e) \<and>
      (let n = length (position e) - length pos in
       case e of
         Generated p b' d' \<Rightarrow> b' = (newBreadth ^^ n) b \<and> d' = d - int n
       | Searched p q \<Rightarrow> int n < max 1 d
       | Terminal p q \<Rightarrow> int n + 1 = max 1 d
       | Progress p pr \<Rightarrow> totalDepth pr = d - int n \<and> totalBreadth pr = (newBreadth ^^ n) b))"

text \<open>
  Before a branch stops, a search has been made at its own position and at every
  position above it, down from \<open>pos\<close>.
\<close>

definition pathSearched :: "nat list \<Rightarrow> event list \<Rightarrow> bool" where
  "pathSearched pos es =
     (\<forall>xs e ys. es = xs @ e # ys \<longrightarrow> isTerminal e \<longrightarrow>
        (\<forall>k. length pos \<le> k \<and> k \<le> length (position e) \<longrightarrow>
           (\<exists>q. Searched (take k (position e)) q \<in> set xs)))"

text \<open>Assumptions on the collaborators that some statements need.\<close>

definition generatorReturnsAll :: "'w Collaborators \<Rightarrow> bool" where
  "generatorReturnsAll C =
     (\<forall>q n ls w. \<exists>queries w'. generateQueries C q n ls w = (Inr queries, w') \<and> length queries = nat n)"

definition searchSucceeds :: "'w Collaborators \<Rightarrow> bool" where
  "searchSucceeds C = (\<forall>q w. \<exists>result w'. search C q w = (Inr result, w'))"

definition extractionSucceeds :: "'w Collaborators \<Rightarrow> bool" where
  "extractionSucceeds C = (\<forall>q contents w. \<exists>res w'. generateLearnings C q contents w = (Inr res, w'))"

text \<open>
  For the progress counts: every entry of \<open>es\<close> comes from invocation \<open>pos\<close> itself
  or from below one of its branches with index \<open>i\<close> or more; the counts that invocation
  \<open>pos\<close> reported lie between \<open>lo\<close> and \<open>hi\<close>; and the counts that any one
  invocation reported never go down.
\<close>

definition fromBranches :: "nat list \<Rightarrow> nat \<Rightarrow> event list \<Rightarrow> bool" where
  "fromBranches pos i es = (\<forall>e\<in>set es. position e = pos \<or> (\<exists>j\<ge>i. prefix (pos @ [j]) (position e)))"

definition countsBetween :: "nat list \<Rightarrow> int \<Rightarrow> int \<Rightarrow> event list \<Rightarrow> bool" where
  "countsBetween pos lo hi es = (\<forall>n\<in>set (notificationsOf pos es). lo \<le> completedQueries n \<and> completedQueries n \<le> hi)"

definition countsAscend :: "event list \<Rightarrow> bool" where
  "countsAscend es = (\<forall>p. sorted (map completedQueries (notificationsOf p es)))"

text \<open>The shared arrays after the given results have been pushed to them, one after another.\<close>

definition appendAll :: "ResearchResult \<Rightarrow> ResearchResult list \<Rightarrow> ResearchResult" where
  "appendAll a cs =
     \<lparr> learnings = learnings a @ concat (map learnings cs),
       visitedUrls = visitedUrls a @ concat (map visitedUrls cs),
       sourceContents = sourceContents a @ concat (map sourceContents cs) \<rparr>"

text \<open>No branch of the invocation has started a recursive call.\<close>

definition noRecursion :: "invocation \<Rightarrow> bool" where
  "noRecursion c = (\<forall>b\<in>set (branches c). b = Queued \<or> b = Running \<or> b = Fulfilled)"

text \<open>
  For the comparison with the report: a flagged claim laid out as the specification
  words it, \<open>**[SEVERITY]** claim\<close>, an em dash between two spaces, then the issue.
  The em dash is the three bytes of its UTF-8 encoding.
\<close>

definition emDash :: string where
  "emDash = [CHR 0xE2, CHR 0x80, CHR 0x94]"

definition specFactLine :: "UnsupportedFact \<Rightarrow> string" where
  "specFactLine f =
     ''**['' @ severityString (severity f) @ '']** '' @ claim f @ '' '' @ emDash @ '' '' @ issue f"

section \<open>Answers in any order\<close>

text \<open>
  The branches of an invocation run concurrently (lines 271 to 273), so what a call does
  depends on the order in which the collaborators answer. JavaScript runs one job at a
  time, and every continuation in \<open>deepResearch\<close> starts at an awaited collaborator
  call: the generator (line 258), the search (line 275), the extraction inside
  \<open>processSerpResult\<close> (line 106). A run is therefore a sequence of answers, and an
  answer is one step: the continuation of the function that awaited it, up to its next
  collaborator call, together with what follows at once from it (the limiter admitting
  the next queued branch, \<open>Promise.all\<close> settling, a recursive call settling the branch
  that returned its promise).

  A collaborator is asked with the arguments that were fixed when it was called and in
  the outside world as it is when it answers. The query generator gets the learnings as
  they were joined into its prompt at the call (lines 61 to 65), the extraction the
  contents that \<open>processSerpResult\<close> computed from the search result before calling.

  \<open>onProgress\<close> is a callback of the caller; it may change the outside world, and it
  may throw. \<open>reportProgressTo\<close> is \<open>reportProgress\<close> (lines 253 to 256) with such a
  callback: the progress object is updated first, then the callback, when there is one,
  is called with it.
\<close>

type_synonym 'w sink = "ResearchProgress \<Rightarrow> 'w \<Rightarrow> (error + unit) \<times> 'w"

definition reportProgressTo ::
  "'w sink option \<Rightarrow> PartialProgress \<Rightarrow> ResearchProgress \<Rightarrow> 'w \<Rightarrow> (error + unit) \<times> ResearchProgress \<times> 'w" where
  "reportProgressTo onProgress update progress w =
     (let progress' = assign progress update in
      case onProgress of
        None \<Rightarrow> (Inr (), progress', w)
      | Some f \<Rightarrow> (case f progress' w of (r, w') \<Rightarrow> (r, progress', w')))"

text \<open>
  The state of one branch (the function of lines 273 to 348 for one \<open>serpQuery\<close>) and of
  one invocation of \<open>deepResearch\<close>.

  A branch is \<open>Waiting\<close> in the queue of the limiter; \<open>Searching\<close>, admitted and
  awaiting the search; \<open>Extracting\<close>, awaiting the extraction, with the search result;
  \<open>Caught\<close>, when its search or its extraction threw and the \<open>catch\<close> returned three
  new empty arrays; \<open>CaughtLate\<close>, when it pushed to the shared arrays and then
  \<open>reportProgress\<close> threw inside the \<open>try\<close> (lines 300 and 322), with the same return;
  \<open>Stopped\<close>, when it returned the shared arrays (line 327); \<open>Recursing\<close>, when it
  returned the promise of a recursive call (line 312), with the state of that call. The
  last three keep the search result, the extraction and the contents the branch pushed.

  An invocation is \<open>Generating\<close>, awaiting the generator, with its breadth, depth, query
  and the learnings of its prompt; \<open>Thrown\<close>, rejected before any branch was made,
  because the generator threw or \<open>reportProgress\<close> did at line 264, outside any
  \<open>try\<close>; or \<open>Branching\<close>, with its breadth and depth, its progress object (line 244),
  its branches in the order of \<open>serpQueries\<close>, and the state of the promise that
  \<open>Promise.all\<close> returned: pending (\<open>None\<close>), rejected or fulfilled.
\<close>

datatype task =
    Waiting SerpQuery
  | Searching SerpQuery
  | Extracting SerpQuery "SearchItem list"
  | Caught
  | CaughtLate "SearchItem list" Extraction "string list"
  | Stopped "SearchItem list" Extraction "string list"
  | Recursing "SearchItem list" Extraction "string list" call
and call =
    Generating int int string "string list"
  | Thrown error
  | Branching int int ResearchProgress "task list" "(error + ResearchResult) option"

text \<open>The promise of an invocation, and the promise of a branch as \<open>Promise.all\<close> sees it.\<close>

fun outcome :: "call \<Rightarrow> (error + ResearchResult) option" where
  "outcome (Generating b d q ls) = None"
| "outcome (Thrown e) = Some (Inl e)"
| "outcome (Branching b d pr ts out) = out"

fun settled :: "task \<Rightarrow> (error + branchResult) option" where
  "settled Caught = Some (Inr (Fresh emptyResult))"
| "settled (CaughtLate r x c) = Some (Inr (Fresh emptyResult))"
| "settled (Stopped r x c) = Some (Inr SharedArrays)"
| "settled (Recursing r x c child) =
     (case outcome child of
        None \<Rightarrow> None
      | Some (Inl e) \<Rightarrow> Some (Inl e)
      | Some (Inr v) \<Rightarrow> Some (Inr (Fresh v)))"
| "settled _ = None"

definition rejection :: "task \<Rightarrow> error list" where
  "rejection t = (case settled t of Some (Inl e) \<Rightarrow> [e] | _ \<Rightarrow> [])"

definition fulfilment :: "task \<Rightarrow> branchResult list" where
  "fulfilment t = (case settled t of Some (Inr v) \<Rightarrow> [v] | _ \<Rightarrow> [])"

text \<open>
  The limiter of an invocation (line 269): a branch counts as running from its admission
  until its promise has settled, and while fewer than \<open>ConcurrencyLimit\<close> branches are
  running the limiter admits the waiting branches in the order in which they were queued.
\<close>

fun active :: "task \<Rightarrow> bool" where
  "active (Waiting sq) = False"
| "active t = (settled t = None)"

fun admit :: "nat \<Rightarrow> task list \<Rightarrow> task list" where
  "admit n [] = []"
| "admit 0 ts = ts"
| "admit (Suc n) (Waiting sq # ts) = Searching sq # admit n ts"
| "admit (Suc n) (t # ts) = t # admit (Suc n) ts"

text \<open>
  \<open>Promise.all\<close> over the branches (line 271) and the merge of lines 352 to 356, which
  runs as soon as every branch is fulfilled and reads the shared arrays as they are then:
  rejected when a branch is, fulfilled with the merged result when all branches are,
  pending otherwise.
\<close>

definition promiseAllOf :: "ResearchResult \<Rightarrow> task list \<Rightarrow> (error + ResearchResult) option" where
  "promiseAllOf a ts =
     (case concat (map rejection ts) of
        e # es \<Rightarrow> Some (Inl e)
      | [] \<Rightarrow> if list_all (\<lambda>t. settled t \<noteq> None) ts
              then Some (Inr (mergeResults (map (deref a) (concat (map fulfilment ts)))))
              else None)"

text \<open>
  What follows an answer inside an invocation without a further answer: admissions, and
  the settling of the invocation's promise, which once settled stays as it is.
\<close>

fun refresh :: "ResearchResult \<Rightarrow> call \<Rightarrow> call" where
  "refresh a (Branching b d pr ts out) =
     (let ts' = admit (ConcurrencyLimit - length (filter active ts)) ts in
      Branching b d pr ts' (case out of None \<Rightarrow> promiseAllOf a ts' | Some r \<Rightarrow> Some r))"
| "refresh a c = c"

text \<open>
  The search of a branch answers (lines 275 to 284): a throw is caught at line 333,
  otherwise \<open>processSerpResult\<close> is called with the result.
\<close>

definition searchResponds :: "'w Collaborators \<Rightarrow> SerpQuery \<Rightarrow> 'w \<Rightarrow> task \<times> 'w" where
  "searchResponds C serpQuery w =
     (case search C (query serpQuery) w of
        (Inl e, w1) \<Rightarrow> (Caught, w1)
      | (Inr result, w1) \<Rightarrow> (Extracting serpQuery result, w1))"

text \<open>
  The extraction of a branch answers (lines 286 to 332), in the outside world and with the
  shared arrays of \<open>g\<close>: a throw is caught; otherwise the branch pushes, reports its
  progress and either calls \<open>deepResearch\<close>, whose prompt takes the learnings as they
  are now, or returns the shared arrays.
\<close>

definition extractionResponds ::
  "'w Collaborators \<Rightarrow> 'w sink option \<Rightarrow> int \<Rightarrow> int \<Rightarrow> SerpQuery \<Rightarrow> SearchItem list \<Rightarrow> ResearchProgress \<Rightarrow>
     'w \<times> ResearchResult \<Rightarrow> task \<times> ResearchProgress \<times> 'w \<times> ResearchResult" where
  "extractionResponds C onProgress breadth depth serpQuery result progress g =
     (case processSerpResult C (query serpQuery) result (fst g) of
        (Inl e, w1) \<Rightarrow> (Caught, progress, (w1, snd g))
      | (Inr (processedResult, contents), w1) \<Rightarrow>
          (let a1 = pushAll processedResult result contents (snd g) in
           if newDepth depth > 0 then
             (case reportProgressTo onProgress (deeperUpdate breadth depth progress serpQuery) progress w1 of
                (Inl e, progress1, w2) \<Rightarrow> (CaughtLate result processedResult contents, progress1, (w2, a1))
              | (Inr u, progress1, w2) \<Rightarrow>
                  (Recursing result processedResult contents
                     (Generating (newBreadth breadth) (newDepth depth)
                        (nextQuery serpQuery processedResult) (learnings a1)),
                   progress1, (w2, a1)))
           else
             (case reportProgressTo onProgress (stopUpdate progress serpQuery) progress w1 of
                (Inl e, progress1, w2) \<Rightarrow> (CaughtLate result processedResult contents, progress1, (w2, a1))
              | (Inr u, progress1, w2) \<Rightarrow> (Stopped result processedResult contents, progress1, (w2, a1)))))"

text \<open>
  One answer. The path names the awaited call that is answered: \<open>[]\<close> the generator of
  the invocation itself, \<open>i # p\<close> the search or extraction of its branch \<open>i\<close> when
  \<open>p\<close> is empty, and otherwise the call that \<open>p\<close> names inside the recursive call of
  branch \<open>i\<close>. \<open>g\<close> is the outside world with the shared arrays. A path that names
  no awaited call changes nothing.
\<close>

fun respond ::
  "'w Collaborators \<Rightarrow> 'w sink option \<Rightarrow> nat list \<Rightarrow> 'w \<times> ResearchResult \<Rightarrow> call \<Rightarrow> ('w \<times> ResearchResult) \<times> call" where
  "respond C onProgress [] g (Generating b d q ls) =
     (case generateSerpQueries C q (Some b) (Some ls) (fst g) of
        (Inl e, w1) \<Rightarrow> ((w1, snd g), Thrown e)
      | (Inr serpQueries, w1) \<Rightarrow>
          (case reportProgressTo onProgress (firstUpdate serpQueries) (initialProgress b d) w1 of
             (Inl e, pr, w2) \<Rightarrow> ((w2, snd g), Thrown e)
           | (Inr u, pr, w2) \<Rightarrow>
               ((w2, snd g), refresh (snd g) (Branching b d pr (map Waiting serpQueries) None))))"
| "respond C onProgress (i # p) g (Branching b d pr ts out) =
     (if i < length ts then
        (case ts ! i of
           Searching sq \<Rightarrow>
             (if p = [] then
                (case searchResponds C sq (fst g) of
                   (t, w1) \<Rightarrow> ((w1, snd g), refresh (snd g) (Branching b d pr (ts[i := t]) out)))
              else (g, Branching b d pr ts out))
         | Extracting sq result \<Rightarrow>
             (if p = [] then
                (case extractionResponds C onProgress b d sq result pr g of
                   (t, pr1, g1) \<Rightarrow> (g1, refresh (snd g1) (Branching b d pr1 (ts[i := t]) out)))
              else (g, Branching b d pr ts out))
         | Recursing r x c child \<Rightarrow>
             (case respond C onProgress p g child of
                (g1, child1) \<Rightarrow>
                  (g1, refresh (snd g1) (Branching b d pr (ts[i := Recursing r x c child1]) out)))
         | _ \<Rightarrow> (g, Branching b d pr ts out))
      else (g, Branching b d pr ts out))"
| "respond C onProgress p g c = (g, c)"

text \<open>
  A run: the answers of a schedule, one after another. A top-level call starts awaiting
  its generator, in the world \<open>w\<close> and with the arrays \<open>a\<close> that the caller passed.
\<close>

fun run ::
  "'w Collaborators \<Rightarrow> 'w sink option \<Rightarrow> nat list list \<Rightarrow> ('w \<times> ResearchResult) \<times> call \<Rightarrow> ('w \<times> ResearchResult) \<times> call" where
  "run C onProgress [] gc = gc"
| "run C onProgress (p # ps) gc = run C onProgress ps (respond C onProgress p (fst gc) (snd gc))"

definition start :: "string \<Rightarrow> int \<Rightarrow> int \<Rightarrow> 'w \<Rightarrow> ResearchResult \<Rightarrow> ('w \<times> ResearchResult) \<times> call" where
  "start q breadth depth w a = ((w, a), Generating breadth depth q (learnings a))"

section \<open>Notions for the runs in any order\<close>


fun isRecursing :: "task \<Rightarrow> bool" where
  "isRecursing (Recursing r x c child) = True"
| "isRecursing t = False"





fun calm :: "call \<Rightarrow> bool"
  and calmT :: "task \<Rightarrow> bool" where
  "calm (Generating b d q ls) = True"
| "calm (Thrown e) = False"
| "calm (Branching b d pr ts out) = list_all calmT ts"
| "calmT (CaughtLate r x c) = False"
| "calmT (Recursing r x c child) = calm child"
| "calmT t = True"

text \<open>
  What a branch pushed to the shared arrays (lines 286 to 290): \<open>deposit\<close> for every
  branch that pushed, \<open>contribution\<close> for the surviving ones, which did not end in
  the \<open>catch\<close>.
\<close>

definition pushed :: "SearchItem list \<Rightarrow> Extraction \<Rightarrow> string list \<Rightarrow> ResearchResult" where
  "pushed result processedResult contents =
     \<lparr> learnings = learnings_x processedResult,
       visitedUrls = compact (map url result),
       sourceContents = contents \<rparr>"

fun contribution :: "task \<Rightarrow> ResearchResult list" where
  "contribution (Stopped r x c) = [pushed r x c]"
| "contribution (Recursing r x c child) = [pushed r x c]"
| "contribution t = []"

fun deposit :: "task \<Rightarrow> ResearchResult list" where
  "deposit (CaughtLate r x c) = [pushed r x c]"
| "deposit (Stopped r x c) = [pushed r x c]"
| "deposit (Recursing r x c child) = [pushed r x c]"
| "deposit t = []"




definition flat :: "ResearchResult \<Rightarrow> ResearchResult \<Rightarrow> call \<Rightarrow> bool" where
  "flat a0 a c =
     (case c of
        Generating b d q ls \<Rightarrow> a = a0
      | Thrown e \<Rightarrow> True
      | Branching b d pr ts out \<Rightarrow>
          \<not> newDepth d > 0 \<longrightarrow>
            list_all (\<lambda>t. \<not> isRecursing t) ts \<and>
            (\<exists>ds. a = appendAll a0 ds \<and> mset ds = mset (concat (map deposit ts))))"




text \<open>
  Collaborators whose generator proposes the queries \<open>A\<close> and \<open>B\<close>, with a page
  and a learning of its own for each query.
\<close>

definition twoPages :: "nat Collaborators" where
  "twoPages =
     \<lparr> generateQueries = (\<lambda>q n ls w.
          (Inr [\<lparr>query = ''A'', researchGoal = ''GA''\<rparr>, \<lparr>query = ''B'', researchGoal = ''GB''\<rparr>], Suc w)),
       search = (\<lambda>q w. (Inr [\<lparr>url = Some (''http://'' @ q), markdown = Some (''page '' @ q)\<rparr>], Suc w)),
       generateLearnings = (\<lambda>q contents w.
          (Inr \<lparr>learnings_x = [''L'' @ q], followUpQuestions = []\<rparr>, Suc w)),
       generateReport = (\<lambda>prompt ls w. (Inr ''Body'', Suc w)),
       generateFactCheck = (\<lambda>report contents w.
          (Inr \<lparr>unsupportedFacts = [], overallAssessment = ''A''\<rparr>, Suc w)),
       trimPrompt = (\<lambda>s n. take n s) \<rparr>"

section \<open>The merge is a set union\<close>

lemma fold_setAdd_set: "set (fold setAdd xs seen) = set seen \<union> set xs"
  by (induction xs arbitrary: seen) (auto simp: setAdd_def)

lemma fold_setAdd_distinct: "distinct seen \<Longrightarrow> distinct (fold setAdd xs seen)"
  by (induction xs arbitrary: seen) (auto simp: setAdd_def)

lemma fold_setAdd_absorb: "set xs \<subseteq> set seen \<Longrightarrow> fold setAdd xs seen = seen"
  by (induction xs arbitrary: seen) (auto simp: setAdd_def)

lemma spreadSet_set: "set (spreadSet xs) = set xs"
  by (simp add: spreadSet_def fold_setAdd_set)

lemma spreadSet_distinct: "distinct (spreadSet xs)"
  by (simp add: spreadSet_def fold_setAdd_distinct)

lemma spreadSet_absorb: "set ys \<subseteq> set xs \<Longrightarrow> spreadSet (xs @ ys) = spreadSet xs"
  by (simp add: spreadSet_def fold_setAdd_absorb fold_setAdd_set)

text \<open>
  C4. The merge of two results holds, in each field, the union of the two fields as a
  set, without duplicates; merging \<open>[A, B]\<close> and merging \<open>[B, A]\<close> give the same set in
  each field, and merging \<open>[A, A]\<close> gives what merging \<open>[A]\<close> gives.
\<close>

theorem merge_commutative_idempotent:
  "set (learnings (mergeResults [A, B])) = set (learnings (mergeResults [B, A]))
   \<and> set (visitedUrls (mergeResults [A, B])) = set (visitedUrls (mergeResults [B, A]))
   \<and> set (sourceContents (mergeResults [A, B])) = set (sourceContents (mergeResults [B, A]))
   \<and> mergeResults [A, A] = mergeResults [A]
   \<and> set (learnings (mergeResults [A, B])) = set (learnings A) \<union> set (learnings B)
   \<and> set (visitedUrls (mergeResults [A, B])) = set (visitedUrls A) \<union> set (visitedUrls B)
   \<and> set (sourceContents (mergeResults [A, B])) = set (sourceContents A) \<union> set (sourceContents B)
   \<and> distinct (learnings (mergeResults [A, B]))
   \<and> distinct (visitedUrls (mergeResults [A, B]))
   \<and> distinct (sourceContents (mergeResults [A, B]))"
  by (simp add: mergeResults_def spreadSet_set spreadSet_distinct spreadSet_absorb Un_commute)

theorem merge_commutative_idempotent_witness:
  "set (learnings (mergeResults
      [\<lparr>learnings = [''a'', ''b''], visitedUrls = [''u''], sourceContents = []\<rparr>,
       \<lparr>learnings = [''b'', ''c''], visitedUrls = [''u''], sourceContents = [''s'']\<rparr>]))
   = {''a'', ''b'', ''c''}
   \<and> set (learnings (mergeResults
      [\<lparr>learnings = [''b'', ''c''], visitedUrls = [''u''], sourceContents = [''s'']\<rparr>,
       \<lparr>learnings = [''a'', ''b''], visitedUrls = [''u''], sourceContents = []\<rparr>]))
   = {''a'', ''b'', ''c''}"
  using merge_commutative_idempotent
    [of "\<lparr>learnings = [''a'', ''b''], visitedUrls = [''u''], sourceContents = []\<rparr>"
        "\<lparr>learnings = [''b'', ''c''], visitedUrls = [''u''], sourceContents = [''s'']\<rparr>"]
  by auto

section \<open>The report\<close>

text \<open>
  C7. With no source contents (the parameter left out, or the empty array) \<open>factCheck\<close>
  returns the fixed fallback, an empty list of unsupported facts and the assessment
  \<open>Unable to fact check - no source content available\<close>, and leaves the world as it
  was. \<open>writeFinalReport\<close> with no source contents does the same whatever the fact-check
  collaborator is, so it does not call it: after the report writer has returned a body,
  the report is the body, the section of the fallback and the sources, and the world is
  the one the report writer left.
\<close>

theorem factCheck_fallback:
  "factCheck C report None w = (Inr factCheckFallback, w)
   \<and> factCheck C report (Some []) w = (Inr factCheckFallback, w)
   \<and> unsupportedFacts factCheckFallback = []
   \<and> overallAssessment factCheckFallback = ''Unable to fact check - no source content available''
   \<and> writeFinalReport (C\<lparr>generateFactCheck := anyFactCheck\<rparr>) prompt ls urls [] w
       = writeFinalReport C prompt ls urls [] w
   \<and> (case generateReport C prompt
              (trimPrompt C (join ''\<newline>'' (map (\<lambda>l. ''<learning>\<newline>'' @ l @ ''\<newline></learning>'') ls)) 150000) w of
         (Inl e, w1) \<Rightarrow> writeFinalReport C prompt ls urls [] w = (Inl e, w1)
       | (Inr body, w1) \<Rightarrow> writeFinalReport C prompt ls urls [] w =
           (Inr (body @ factCheckSection factCheckFallback @ urlsSection urls), w1))"
  by (simp add: factCheck_def factCheckFallback_def writeFinalReport_def split: prod.splits sum.splits)

theorem factCheck_fallback_witness:
  "writeFinalReport scenario ''topic'' [''L1''] [''http://u1''] [] 0 =
     (Inr (''Body'' @ factCheckSection factCheckFallback @ urlsSection [''http://u1'']), 1)"
  using factCheck_fallback [of scenario "''Body''" 0 "generateFactCheck steady" "''topic''" "[''L1'']" "[''http://u1'']"]
  by (simp add: scenario_def)

section \<open>Progress updates\<close>

text \<open>
  C9. \<open>reportProgress\<close> writes each field that the update has and leaves every other
  field of the progress object as it was; it touches neither the world nor the shared
  arrays; then, when the caller gave a sink, the sink is called once, with the whole
  progress object as it is after the update.
\<close>

theorem reportProgress_frame:
  "reportProgress onProgress pos update progress st = (progress', st') \<Longrightarrow>
     (currentDepth progress' = (case upd_currentDepth update of None \<Rightarrow> currentDepth progress | Some v \<Rightarrow> v))
   \<and> (totalDepth progress' = (case upd_totalDepth update of None \<Rightarrow> totalDepth progress | Some v \<Rightarrow> v))
   \<and> (currentBreadth progress' = (case upd_currentBreadth update of None \<Rightarrow> currentBreadth progress | Some v \<Rightarrow> v))
   \<and> (totalBreadth progress' = (case upd_totalBreadth update of None \<Rightarrow> totalBreadth progress | Some v \<Rightarrow> v))
   \<and> (currentQuery progress' = (case upd_currentQuery update of None \<Rightarrow> currentQuery progress | Some v \<Rightarrow> v))
   \<and> (totalQueries progress' = (case upd_totalQueries update of None \<Rightarrow> totalQueries progress | Some v \<Rightarrow> v))
   \<and> (completedQueries progress' = (case upd_completedQueries update of None \<Rightarrow> completedQueries progress | Some v \<Rightarrow> v))
   \<and> world st' = world st \<and> acc st' = acc st
   \<and> events st' = (if onProgress then events st @ [Progress pos progress'] else events st)"
  by (auto simp: reportProgress_def assign_def record_event_def Let_def)

theorem reportProgress_frame_witness:
  "reportProgress True [] (noUpdate\<lparr>upd_totalQueries := Some 2, upd_currentQuery := Some None\<rparr>)
       ((initialProgress 4 2)\<lparr>currentQuery := Some ''Q0''\<rparr>) (freshState (0::nat))
     = (\<lparr>currentDepth = 2, totalDepth = 2, currentBreadth = 4, totalBreadth = 4,
          currentQuery = None, totalQueries = 2, completedQueries = 0\<rparr>,
        \<lparr>world = 0, acc = emptyResult,
          events = [Progress [] \<lparr>currentDepth = 2, totalDepth = 2, currentBreadth = 4, totalBreadth = 4,
                                 currentQuery = None, totalQueries = 2, completedQueries = 0\<rparr>]\<rparr>)
   \<and> totalDepth (fst (reportProgress True []
         (noUpdate\<lparr>upd_totalQueries := Some 2, upd_currentQuery := Some None\<rparr>)
         ((initialProgress 4 2)\<lparr>currentQuery := Some ''Q0''\<rparr>) (freshState (0::nat)))) = 2"
  using reportProgress_frame
    [of True "[]" "noUpdate\<lparr>upd_totalQueries := Some 2, upd_currentQuery := Some None\<rparr>"
        "(initialProgress 4 2)\<lparr>currentQuery := Some ''Q0''\<rparr>" "freshState (0::nat)"
        "fst (reportProgress True [] (noUpdate\<lparr>upd_totalQueries := Some 2, upd_currentQuery := Some None\<rparr>)
           ((initialProgress 4 2)\<lparr>currentQuery := Some ''Q0''\<rparr>) (freshState (0::nat)))"
        "snd (reportProgress True [] (noUpdate\<lparr>upd_totalQueries := Some 2, upd_currentQuery := Some None\<rparr>)
           ((initialProgress 4 2)\<lparr>currentQuery := Some ''Q0''\<rparr>) (freshState (0::nat)))"]
  by (simp add: reportProgress_def assign_def noUpdate_def initialProgress_def freshState_def
      record_event_def Let_def)

section \<open>The recursion, case by case\<close>

text \<open>
  The equations of \<open>deepResearch\<close> and \<open>branch\<close> are unfolded through the case rules below.
\<close>

declare deepResearch.simps [simp del] branch.simps [simp del]

lemma reportProgress_events:
  "reportProgress onP pos u pr st = (pr', st') \<Longrightarrow>
     pr' = assign pr u \<and> world st' = world st \<and> acc st' = acc st \<and>
     events st' = events st @ (if onP then [Progress pos pr'] else [])"
  by (auto simp: reportProgress_def record_event_def Let_def)

lemma deepResearchE [consumes 1, case_names GenFails Runs]:
  assumes "deepResearch C onP pos q b d st = (r, st')"
  obtains
    (GenFails) e w1 where
      "generateSerpQueries C q (Some b) (Some (learnings (acc st))) (world st) = (Inl e, w1)"
      "r = Inl e" "st' = record_event (Generated pos b d) (st\<lparr>world := w1\<rparr>)"
  | (Runs) serpQueries w1 pr1 st1 results pr2 where
      "generateSerpQueries C q (Some b) (Some (learnings (acc st))) (world st) = (Inr serpQueries, w1)"
      "reportProgress onP pos (firstUpdate serpQueries) (initialProgress b d)
         (record_event (Generated pos b d) (st\<lparr>world := w1\<rparr>)) = (pr1, st1)"
      "runBranches C onP pos b d 0 serpQueries pr1 st1 = (results, pr2, st')"
      "r = (case promiseAll results of Inl e \<Rightarrow> Inl e
            | Inr rs \<Rightarrow> Inr (mergeResults (map (deref (acc st')) rs)))"
  using assms
  by (auto simp: deepResearch.simps firstUpdate_def split: prod.splits sum.splits)

lemma runBranchesE [consumes 1, case_names Branches]:
  assumes "runBranches C onP pos b d i (sq # rest) pr st = (rs, pr', st')"
  obtains r1 pr1 st1 rs2 where
      "branch C onP pos b d i sq pr st = (r1, pr1, st1)"
      "runBranches C onP pos b d (Suc i) rest pr1 st1 = (rs2, pr', st')"
      "rs = r1 # rs2"
  using assms by (auto split: prod.splits)

lemma branchE [consumes 1, case_names SearchFails ExtractFails Recurses Stops]:
  assumes "branch C onP pos b d i sq pr st = (br, pr', st')"
  obtains
    (SearchFails) e w1 where
      "search C (query sq) (world st) = (Inl e, w1)"
      "br = Inr (Fresh emptyResult)" "pr' = pr"
      "st' = record_event (Searched pos (query sq)) (st\<lparr>world := w1\<rparr>)"
  | (ExtractFails) result w1 e w2 where
      "search C (query sq) (world st) = (Inr result, w1)"
      "processSerpResult C (query sq) result w1 = (Inl e, w2)"
      "br = Inr (Fresh emptyResult)" "pr' = pr"
      "st' = record_event (Searched pos (query sq)) (st\<lparr>world := w2\<rparr>)"
  | (Recurses) result w1 processedResult contents w2 st1 st2 r where
      "search C (query sq) (world st) = (Inr result, w1)"
      "processSerpResult C (query sq) result w1 = (Inr (processedResult, contents), w2)"
      "st1 = record_event (Searched pos (query sq))
               (st\<lparr>world := w2, acc := pushAll processedResult result contents (acc st)\<rparr>)"
      "newDepth d > 0"
      "reportProgress onP pos (deeperUpdate b d pr sq) pr st1 = (pr', st2)"
      "deepResearch C onP (pos @ [i]) (nextQuery sq processedResult) (newBreadth b) (newDepth d) st2 = (r, st')"
      "br = (case r of Inl e \<Rightarrow> Inl e | Inr v \<Rightarrow> Inr (Fresh v))"
  | (Stops) result w1 processedResult contents w2 st1 st2 where
      "search C (query sq) (world st) = (Inr result, w1)"
      "processSerpResult C (query sq) result w1 = (Inr (processedResult, contents), w2)"
      "st1 = record_event (Searched pos (query sq))
               (st\<lparr>world := w2, acc := pushAll processedResult result contents (acc st)\<rparr>)"
      "\<not> newDepth d > 0"
      "reportProgress onP pos (stopUpdate pr sq) pr st1 = (pr', st2)"
      "br = Inr SharedArrays"
      "st' = record_event (Terminal pos (query sq)) st2"
  using assms
  by (auto simp: branch.simps deeperUpdate_def stopUpdate_def Let_def split: prod.splits sum.splits if_splits)

lemma inSubtree_child:
  assumes "inSubtree (pos @ [i]) (newBreadth b) (newDepth d) e" "newDepth d > 0"
  shows "inSubtree pos b d e"
proof -
  from assms(1) have pre: "prefix (pos @ [i]) (position e)" by (simp add: inSubtree_def)
  then obtain zs where zs: "position e = pos @ [i] @ zs"
    by (auto simp: prefix_def)
  show ?thesis
    using assms zs
    by (cases e) (auto simp: inSubtree_def Let_def funpow_swap1 newDepth_def)
qed

lemma journal_inSubtree:
  "deepResearch C onP pos q b d st = (r, st') \<Longrightarrow>
     \<exists>es. events st' = events st @ es \<and> (\<forall>e\<in>set es. inSubtree pos b d e)"
  "runBranches C onP pos b d i qs pr st = (rs, pr', st') \<Longrightarrow> totalDepth pr = d \<Longrightarrow> totalBreadth pr = b \<Longrightarrow>
     (\<exists>es. events st' = events st @ es \<and> (\<forall>e\<in>set es. inSubtree pos b d e)) \<and>
     totalDepth pr' = d \<and> totalBreadth pr' = b"
  "branch C onP pos b d i sq pr st = (br, pr', st') \<Longrightarrow> totalDepth pr = d \<Longrightarrow> totalBreadth pr = b \<Longrightarrow>
     (\<exists>es. events st' = events st @ es \<and> (\<forall>e\<in>set es. inSubtree pos b d e)) \<and>
     totalDepth pr' = d \<and> totalBreadth pr' = b"
proof (induction C onP pos q b d st and C onP pos b d i qs pr st and C onP pos b d i sq pr st
       arbitrary: r st' and rs pr' st' and br pr' st'
       rule: deepResearch_runBranches_branch.induct)
  case (1 C onP pos q b d st)
  from "1.prems" show ?case
  proof (cases rule: deepResearchE)
    case (GenFails e w1)
    then show ?thesis by (auto simp: record_event_def inSubtree_def)
  next
    case (Runs serpQueries w1 pr1 st1 results pr2)
    from reportProgress_events[OF Runs(2)]
    have pr1: "totalDepth pr1 = d" "totalBreadth pr1 = b"
      and ev1: "events st1 = events st @ Generated pos b d # (if onP then [Progress pos pr1] else [])"
      by (auto simp: assign_def noUpdate_def firstUpdate_def initialProgress_def record_event_def)
    from "1.IH"[OF Runs(1)[symmetric] refl Runs(2)[unfolded firstUpdate_def, symmetric] Runs(3) pr1]
    obtain es where es: "events st' = events st1 @ es" "\<forall>e\<in>set es. inSubtree pos b d e" by blast
    show ?thesis
      using es ev1 pr1 by (auto simp: inSubtree_def)
  qed
next
  case (2 C onProgress pos breadth depth i progress st)
  then show ?case by simp
next
  case (3 C onP pos b d i sq rest pr st)
  from "3.prems"(1) show ?case
  proof (cases rule: runBranchesE)
    case (Branches r1 pr1 st1 rs2)
    from "3.IH"(1)[OF Branches(1) "3.prems"(2,3)]
    obtain es1 where es1: "events st1 = events st @ es1" "\<forall>e\<in>set es1. inSubtree pos b d e"
      and pr1: "totalDepth pr1 = d" "totalBreadth pr1 = b" by blast
    from "3.IH"(2)[OF Branches(1)[symmetric] refl Branches(2) pr1]
    obtain es2 where es2: "events st' = events st1 @ es2" "\<forall>e\<in>set es2. inSubtree pos b d e"
      and pr2: "totalDepth pr' = d" "totalBreadth pr' = b" by blast
    show ?thesis using es1 es2 pr2 by auto
  qed
next
  case (4 C onP pos b d i sq pr st)
  from "4.prems"(1) show ?case
  proof (cases rule: branchE)
    case (SearchFails e w1)
    with "4.prems" show ?thesis by (auto simp: record_event_def inSubtree_def)
  next
    case (ExtractFails result w1 e w2)
    with "4.prems" show ?thesis by (auto simp: record_event_def inSubtree_def)
  next
    case (Recurses result w1 processedResult contents w2 st1 st2 r)
    from "4.IH"[OF Recurses(1)[symmetric] refl Recurses(2)[symmetric] refl refl Recurses(3,4)
                   Recurses(5)[unfolded deeperUpdate_def, symmetric] Recurses(6)]
    obtain es where es: "events st' = events st2 @ es"
       "\<forall>e\<in>set es. inSubtree (pos @ [i]) (newBreadth b) (newDepth d) e" by blast
    from reportProgress_events[OF Recurses(5)] "4.prems"(2,3)
    have pr1: "totalDepth pr' = d" "totalBreadth pr' = b"
      and ev2: "events st2 = events st @ Searched pos (query sq) # (if onP then [Progress pos pr'] else [])"
      by (auto simp: assign_def noUpdate_def deeperUpdate_def Recurses(3) record_event_def)
    have "\<forall>e\<in>set es. inSubtree pos b d e"
      using es(2) inSubtree_child[OF _ Recurses(4)] by blast
    then show ?thesis
      using es(1) ev2 pr1 Recurses(4)
      by (auto simp: inSubtree_def newDepth_def)
  next
    case (Stops result w1 processedResult contents w2 st1 st2)
    from reportProgress_events[OF Stops(5)] "4.prems"(2,3)
    have pr1: "totalDepth pr' = d" "totalBreadth pr' = b"
      and ev2: "events st2 = events st @ Searched pos (query sq) # (if onP then [Progress pos pr'] else [])"
      by (auto simp: assign_def noUpdate_def stopUpdate_def Stops(3) record_event_def)
    show ?thesis
      using ev2 pr1 Stops(4) unfolding Stops(7)
      by (auto simp: inSubtree_def newDepth_def record_event_def)
  qed
qed

section \<open>Halving and the journal\<close>

lemma newBreadth_int: "newBreadth b = - ((- b) div 2)"
  unfolding newBreadth_def
  by (metis ceiling_divide_eq_div of_int_numeral)

lemma ceiling_half_ceiling: "\<lceil>real_of_int \<lceil>x\<rceil> / 2\<rceil> = \<lceil>x / 2\<rceil>" for x :: real
proof (rule antisym)
  show "\<lceil>x / 2\<rceil> \<le> \<lceil>real_of_int \<lceil>x\<rceil> / 2\<rceil>"
    by (intro ceiling_mono divide_right_mono) (auto simp: le_of_int_ceiling)
  have "real_of_int \<lceil>x\<rceil> \<le> 2 * real_of_int \<lceil>x / 2\<rceil>"
  proof -
    have "x / 2 \<le> real_of_int \<lceil>x / 2\<rceil>" by (rule le_of_int_ceiling)
    then have "x \<le> 2 * real_of_int \<lceil>x / 2\<rceil>" by linarith
    then have "x \<le> real_of_int (2 * \<lceil>x / 2\<rceil>)" by simp
    then have "\<lceil>x\<rceil> \<le> 2 * \<lceil>x / 2\<rceil>" by (simp only: ceiling_le_iff)
    then show ?thesis by (metis of_int_le_iff of_int_mult of_int_numeral)
  qed
  then have "real_of_int \<lceil>x\<rceil> / 2 \<le> real_of_int \<lceil>x / 2\<rceil>" by simp
  then show "\<lceil>real_of_int \<lceil>x\<rceil> / 2\<rceil> \<le> \<lceil>x / 2\<rceil>" by (simp only: ceiling_le_iff)
qed

lemma newBreadth_funpow: "(newBreadth ^^ n) b = \<lceil>real_of_int b / 2 ^ n\<rceil>"
proof (induction n)
  case 0
  then show ?case by simp
next
  case (Suc n)
  have "(newBreadth ^^ Suc n) b = \<lceil>real_of_int \<lceil>real_of_int b / 2 ^ n\<rceil> / 2\<rceil>"
    by (simp add: Suc newBreadth_def)
  also have "\<dots> = \<lceil>real_of_int b / 2 ^ n / 2\<rceil>" by (rule ceiling_half_ceiling)
  finally show ?case by (simp add: field_simps)
qed

lemma emitted_append: "events st' = events st @ es \<Longrightarrow> emitted st st' = es"
  by (simp add: emitted_def)

lemma pathSearched_Nil: "pathSearched pos []"
  by (simp add: pathSearched_def)

lemma pathSearched_append:
  assumes "pathSearched pos es1" "pathSearched pos es2"
  shows "pathSearched pos (es1 @ es2)"
  unfolding pathSearched_def
proof (intro allI impI)
  fix xs e ys k
  assume split: "es1 @ es2 = xs @ e # ys" and t: "isTerminal e"
    and k: "length pos \<le> k \<and> k \<le> length (position e)"
  from split consider
      (left) zs where "es1 = xs @ e # zs"
    | (right) zs where "xs = es1 @ zs" "es2 = zs @ e # ys"
    by (auto simp: append_eq_append_conv2 append_eq_Cons_conv Cons_eq_append_conv)
  then show "\<exists>q. Searched (take k (position e)) q \<in> set xs"
  proof cases
    case left
    with assms(1) t k show ?thesis unfolding pathSearched_def by blast
  next
    case right
    with assms(2) t k obtain q where "Searched (take k (position e)) q \<in> set zs"
      unfolding pathSearched_def by blast
    with right show ?thesis by auto
  qed
qed

lemma pathSearched_no_terminal:
  "\<forall>e\<in>set es. \<not> isTerminal e \<Longrightarrow> pathSearched pos es"
  by (auto simp: pathSearched_def)

lemma pathSearched_child:
  assumes child: "pathSearched (pos @ [i]) es"
    and sub: "\<forall>e\<in>set es. prefix (pos @ [i]) (position e)"
    and pre: "\<forall>e\<in>set pre. \<not> isTerminal e" "Searched pos q \<in> set pre"
  shows "pathSearched pos (pre @ es)"
  unfolding pathSearched_def
proof (intro allI impI)
  fix xs e ys k
  assume split: "pre @ es = xs @ e # ys" and t: "isTerminal e"
    and k: "length pos \<le> k \<and> k \<le> length (position e)"
  from split consider
      (left) zs where "pre = xs @ e # zs"
    | (right) zs where "xs = pre @ zs" "es = zs @ e # ys"
    by (auto simp: append_eq_append_conv2 append_eq_Cons_conv Cons_eq_append_conv)
  then show "\<exists>q. Searched (take k (position e)) q \<in> set xs"
  proof cases
    case left
    with pre(1) t show ?thesis by auto
  next
    case right
    then have "e \<in> set es" by simp
    with sub obtain zs' where pe: "position e = pos @ [i] @ zs'" by (auto simp: prefix_def)
    show ?thesis
    proof (cases "k = length pos")
      case True
      with pe have "take k (position e) = pos" by simp
      with pre(2) right show ?thesis by auto
    next
      case False
      with k have "length (pos @ [i]) \<le> k \<and> k \<le> length (position e)" by simp
      with child right t obtain q' where "Searched (take k (position e)) q' \<in> set zs"
        unfolding pathSearched_def by blast
      with right show ?thesis by auto
    qed
  qed
qed

lemma inSubtree_prefix: "inSubtree pos b d e \<Longrightarrow> prefix pos (position e)"
  by (simp add: inSubtree_def)

lemma journal_pathSearched:
  "deepResearch C onP pos q b d st = (r, st') \<Longrightarrow>
     \<exists>es. events st' = events st @ es \<and> pathSearched pos es"
  "runBranches C onP pos b d i qs pr st = (rs, pr', st') \<Longrightarrow>
     \<exists>es. events st' = events st @ es \<and> pathSearched pos es"
  "branch C onP pos b d i sq pr st = (br, pr', st') \<Longrightarrow>
     \<exists>es. events st' = events st @ es \<and> pathSearched pos es"
proof (induction C onP pos q b d st and C onP pos b d i qs pr st and C onP pos b d i sq pr st
       arbitrary: r st' and rs pr' st' and br pr' st'
       rule: deepResearch_runBranches_branch.induct)
  case (1 C onP pos q b d st)
  from "1.prems" show ?case
  proof (cases rule: deepResearchE)
    case (GenFails e w1)
    then show ?thesis by (auto simp: record_event_def intro!: pathSearched_no_terminal)
  next
    case (Runs serpQueries w1 pr1 st1 results pr2)
    from reportProgress_events[OF Runs(2)]
    have ev1: "events st1 = events st @ Generated pos b d # (if onP then [Progress pos pr1] else [])"
      by (auto simp: record_event_def)
    from "1.IH"[OF Runs(1)[symmetric] refl Runs(2)[unfolded firstUpdate_def, symmetric] Runs(3)]
    obtain es where es: "events st' = events st1 @ es" "pathSearched pos es" by blast
    have "pathSearched pos ((Generated pos b d # (if onP then [Progress pos pr1] else [])) @ es)"
      by (rule pathSearched_append[OF pathSearched_no_terminal es(2)]) auto
    then show ?thesis using es(1) ev1 by auto
  qed
next
  case (2 C onProgress pos breadth depth i progress st)
  then show ?case by (simp add: pathSearched_Nil)
next
  case (3 C onP pos b d i sq rest pr st)
  from "3.prems"(1) show ?case
  proof (cases rule: runBranchesE)
    case (Branches r1 pr1 st1 rs2)
    from "3.IH"(1)[OF Branches(1)]
    obtain es1 where es1: "events st1 = events st @ es1" "pathSearched pos es1" by blast
    from "3.IH"(2)[OF Branches(1)[symmetric] refl Branches(2)]
    obtain es2 where es2: "events st' = events st1 @ es2" "pathSearched pos es2" by blast
    show ?thesis using es1 es2 pathSearched_append by auto
  qed
next
  case (4 C onP pos b d i sq pr st)
  from "4.prems"(1) show ?case
  proof (cases rule: branchE)
    case (SearchFails e w1)
    then show ?thesis by (auto simp: record_event_def intro!: pathSearched_no_terminal)
  next
    case (ExtractFails result w1 e w2)
    then show ?thesis by (auto simp: record_event_def intro!: pathSearched_no_terminal)
  next
    case (Recurses result w1 processedResult contents w2 st1 st2 r)
    from "4.IH"[OF Recurses(1)[symmetric] refl Recurses(2)[symmetric] refl refl Recurses(3,4)
                   Recurses(5)[unfolded deeperUpdate_def, symmetric] Recurses(6)]
    obtain es where es: "events st' = events st2 @ es" "pathSearched (pos @ [i]) es" by blast
    from journal_inSubtree(1)[OF Recurses(6)] es(1)
    have sub: "\<forall>e\<in>set es. prefix (pos @ [i]) (position e)"
      by (auto dest: inSubtree_prefix)
    from reportProgress_events[OF Recurses(5)]
    have ev2: "events st2 = events st @ Searched pos (query sq) # (if onP then [Progress pos pr'] else [])"
      by (auto simp: Recurses(3) record_event_def)
    have "pathSearched pos ((Searched pos (query sq) # (if onP then [Progress pos pr'] else [])) @ es)"
      by (rule pathSearched_child[OF es(2) sub, where q = "query sq"]) auto
    then show ?thesis using es(1) ev2 by auto
  next
    case (Stops result w1 processedResult contents w2 st1 st2)
    from reportProgress_events[OF Stops(5)]
    have ev2: "events st2 = events st @ Searched pos (query sq) # (if onP then [Progress pos pr'] else [])"
      by (auto simp: Stops(3) record_event_def)
    have "pathSearched pos ((Searched pos (query sq) # (if onP then [Progress pos pr'] else [])) @ [Terminal pos (query sq)])"
      by (auto simp: pathSearched_def append_eq_append_conv2 append_eq_Cons_conv Cons_eq_append_conv)
    then show ?thesis
      using ev2 unfolding Stops(7) by (auto simp: record_event_def)
  qed
qed

lemma newBreadth_pos: "1 \<le> b \<Longrightarrow> 1 \<le> newBreadth b"
  by (simp add: newBreadth_int)

lemma generateSerpQueries_all:
  assumes "generatorReturnsAll C" "0 \<le> b"
  shows "\<exists>serpQueries w'. generateSerpQueries C q (Some b) ls w = (Inr serpQueries, w')
           \<and> length serpQueries = nat b"
proof -
  from assms(1) obtain queries w' where
    "generateQueries C q b ls w = (Inr queries, w')" "length queries = nat b"
    unfolding generatorReturnsAll_def by blast
  then show ?thesis using assms(2)
    by (simp add: generateSerpQueries_def slice0_def)
qed

lemma processSerpResult_succeeds:
  assumes "extractionSucceeds C"
  shows "\<exists>res contents w'. processSerpResult C q result w = (Inr (res, contents), w')"
proof -
  from assms obtain res w' where
    "generateLearnings C q (map (\<lambda>content. trimPrompt C content 25000) (compact (map markdown result))) w
       = (Inr res, w')"
    unfolding extractionSucceeds_def by blast
  then show ?thesis by (simp add: processSerpResult_def)
qed

lemma journal_reaches_terminal:
  assumes C: "generatorReturnsAll C" "searchSucceeds C" "extractionSucceeds C"
  shows
  "deepResearch C onP pos q b d st = (r, st') \<Longrightarrow> 1 \<le> b \<Longrightarrow>
     \<exists>es. events st' = events st @ es \<and> (\<exists>e\<in>set es. isTerminal e)"
  "runBranches C onP pos b d i qs pr st = (rs, pr', st') \<Longrightarrow> 1 \<le> b \<Longrightarrow> qs \<noteq> [] \<Longrightarrow>
     \<exists>es. events st' = events st @ es \<and> (\<exists>e\<in>set es. isTerminal e)"
  "branch C onP pos b d i sq pr st = (br, pr', st') \<Longrightarrow> 1 \<le> b \<Longrightarrow>
     \<exists>es. events st' = events st @ es \<and> (\<exists>e\<in>set es. isTerminal e)"
  using C
proof (induction C onP pos q b d st and C onP pos b d i qs pr st and C onP pos b d i sq pr st
       arbitrary: r st' and rs pr' st' and br pr' st'
       rule: deepResearch_runBranches_branch.induct)
  case (1 C onP pos q b d st)
  from generateSerpQueries_all[OF "1.prems"(3), of b q "Some (learnings (acc st))" "world st"] "1.prems"(2)
  obtain sqs w' where gen: "generateSerpQueries C q (Some b) (Some (learnings (acc st))) (world st) = (Inr sqs, w')"
    and len: "length sqs = nat b" by auto
  from "1.prems"(1) show ?case
  proof (cases rule: deepResearchE)
    case (GenFails e w1)
    with gen show ?thesis by simp
  next
    case (Runs serpQueries w1 pr1 st1 results pr2)
    with gen len "1.prems"(2) have ne: "serpQueries \<noteq> []" by auto
    from reportProgress_events[OF Runs(2)]
    have ev1: "events st1 = events st @ Generated pos b d # (if onP then [Progress pos pr1] else [])"
      by (auto simp: record_event_def)
    from "1.IH"[OF Runs(1)[symmetric] refl Runs(2)[unfolded firstUpdate_def, symmetric] Runs(3)
                   "1.prems"(2) ne "1.prems"(3,4,5)]
    obtain es where es: "events st' = events st1 @ es" "\<exists>e\<in>set es. isTerminal e" by blast
    then show ?thesis using ev1 by auto
  qed
next
  case (2 C onProgress pos breadth depth i progress st)
  then show ?case by simp
next
  case (3 C onP pos b d i sq rest pr st)
  from "3.prems"(1) show ?case
  proof (cases rule: runBranchesE)
    case (Branches r1 pr1 st1 rs2)
    from "3.IH"(1)[OF Branches(1) "3.prems"(2) "3.prems"(4,5,6)]
    obtain es1 where es1: "events st1 = events st @ es1" "\<exists>e\<in>set es1. isTerminal e" by blast
    from journal_pathSearched(2)[OF Branches(2)]
    obtain es2 where es2: "events st' = events st1 @ es2" by blast
    show ?thesis using es1 es2 by auto
  qed
next
  case (4 C onP pos b d i sq pr st)
  from "4.prems"(4) obtain result0 w0 where s0: "search C (query sq) (world st) = (Inr result0, w0)"
    unfolding searchSucceeds_def by blast
  from processSerpResult_succeeds[OF "4.prems"(5)]
  obtain res0 c0 w0' where p0: "processSerpResult C (query sq) result0 w0 = (Inr (res0, c0), w0')"
    by blast
  from "4.prems"(1) show ?case
  proof (cases rule: branchE)
    case (SearchFails e w1)
    with s0 show ?thesis by simp
  next
    case (ExtractFails result w1 e w2)
    with s0 p0 show ?thesis by simp
  next
    case (Recurses result w1 processedResult contents w2 st1 st2 r)
    from "4.IH"[OF Recurses(1)[symmetric] refl Recurses(2)[symmetric] refl refl Recurses(3,4)
                   Recurses(5)[unfolded deeperUpdate_def, symmetric] Recurses(6)
                   newBreadth_pos[OF "4.prems"(2)] "4.prems"(3,4,5)]
    obtain es where es: "events st' = events st2 @ es" "\<exists>e\<in>set es. isTerminal e" by blast
    from reportProgress_events[OF Recurses(5)]
    have ev2: "events st2 = events st @ Searched pos (query sq) # (if onP then [Progress pos pr'] else [])"
      by (auto simp: Recurses(3) record_event_def)
    show ?thesis using es ev2 by auto
  next
    case (Stops result w1 processedResult contents w2 st1 st2)
    from reportProgress_events[OF Stops(5)]
    have ev2: "events st2 = events st @ Searched pos (query sq) # (if onP then [Progress pos pr'] else [])"
      by (auto simp: Stops(3) record_event_def)
    show ?thesis
      using ev2 unfolding Stops(7) by (auto simp: record_event_def)
  qed
qed

lemma searchedBy_append: "searchedBy p (xs @ ys) = searchedBy p xs @ searchedBy p ys"
  by (simp add: searchedBy_def)

lemma searchedBy_below:
  assumes "\<forall>e\<in>set es. prefix (pos @ [i]) (position e)"
  shows "searchedBy pos es = []"
proof -
  have "filter (\<lambda>e. position e = pos) es = []"
    using assms by (auto simp: filter_empty_conv prefix_def)
  then show ?thesis by (simp add: searchedBy_def)
qed

lemma branch_searchedBy:
  assumes "branch C onP pos b d i sq pr st = (br, pr', st')"
  shows "\<exists>es. events st' = events st @ es \<and> searchedBy pos es = [query sq]"
  using assms
proof (cases rule: branchE)
  case (SearchFails e w1)
  then show ?thesis by (simp add: record_event_def searchedBy_def)
next
  case (ExtractFails result w1 e w2)
  then show ?thesis by (simp add: record_event_def searchedBy_def)
next
  case (Recurses result w1 processedResult contents w2 st1 st2 r)
  from journal_inSubtree(1)[OF Recurses(6)]
  obtain es where es: "events st' = events st2 @ es" "\<forall>e\<in>set es. prefix (pos @ [i]) (position e)"
    by (auto dest: inSubtree_prefix)
  from reportProgress_events[OF Recurses(5)]
  have ev2: "events st2 = events st @ Searched pos (query sq) # (if onP then [Progress pos pr'] else [])"
    by (auto simp: Recurses(3) record_event_def)
  have "searchedBy pos ((Searched pos (query sq) # (if onP then [Progress pos pr'] else [])) @ es) = [query sq]"
    unfolding searchedBy_append searchedBy_below[OF es(2)] by (simp add: searchedBy_def)
  then show ?thesis using es(1) ev2 by auto
next
  case (Stops result w1 processedResult contents w2 st1 st2)
  from reportProgress_events[OF Stops(5)]
  have ev2: "events st2 = events st @ Searched pos (query sq) # (if onP then [Progress pos pr'] else [])"
    by (auto simp: Stops(3) record_event_def)
  show ?thesis
    using ev2 unfolding Stops(7) by (auto simp: record_event_def searchedBy_def)
qed

lemma runBranches_searchedBy:
  "runBranches C onP pos b d i qs pr st = (rs, pr', st') \<Longrightarrow>
     \<exists>es. events st' = events st @ es \<and> searchedBy pos es = map query qs
          \<and> (qs = [] \<longrightarrow> es = [])"
proof (induction qs arbitrary: i pr st rs pr' st')
  case Nil
  then show ?case by (simp add: searchedBy_def)
next
  case (Cons sq rest)
  from Cons.prems show ?case
  proof (cases rule: runBranchesE)
    case (Branches r1 pr1 st1 rs2)
    from branch_searchedBy[OF Branches(1)]
    obtain es1 where es1: "events st1 = events st @ es1" "searchedBy pos es1 = [query sq]" by blast
    from Cons.IH[OF Branches(2)]
    obtain es2 where es2: "events st' = events st1 @ es2" "searchedBy pos es2 = map query rest" by blast
    show ?thesis using es1 es2 by (auto simp: searchedBy_append)
  qed
qed

lemma logging_logs: "logsRequests snd (logging C)"
  by (auto simp: logsRequests_def logging_def split: prod.splits)

lemma generateSerpQueries_log:
  assumes "logsRequests lg C" "generateSerpQueries C q (Some b) ls w = (r, w')"
  shows "lg w' = lg w @ [QueriesRequested b]"
proof -
  from assms(2) have "w' = snd (generateQueries C q b ls w)"
    by (auto simp: generateSerpQueries_def split: prod.splits sum.splits)
  with assms(1) show ?thesis by (simp add: logsRequests_def)
qed

lemma search_log:
  assumes "logsRequests lg C" "search C q w = (r, w')"
  shows "lg w' = lg w @ [SearchRequested q]"
  using assms by (metis logsRequests_def snd_conv)

lemma processSerpResult_log:
  assumes "logsRequests lg C" "processSerpResult C q result w = (r, w')"
  shows "lg w' = lg w"
proof -
  from assms(2) have "w' = snd (generateLearnings C q
      (map (\<lambda>content. trimPrompt C content 25000) (compact (map markdown result))) w)"
    by (auto simp: processSerpResult_def Let_def split: prod.splits sum.splits)
  with assms(1) show ?thesis by (simp add: logsRequests_def)
qed

lemma requests_append: "requests (xs @ ys) = requests xs @ requests ys"
  by (simp add: requests_def)

lemma journal_requests:
  assumes C: "logsRequests lg C"
  shows
  "deepResearch C onP pos q b d st = (r, st') \<Longrightarrow>
     \<exists>es. events st' = events st @ es \<and> lg (world st') = lg (world st) @ requests es"
  "runBranches C onP pos b d i qs pr st = (rs, pr', st') \<Longrightarrow>
     \<exists>es. events st' = events st @ es \<and> lg (world st') = lg (world st) @ requests es"
  "branch C onP pos b d i sq pr st = (br, pr', st') \<Longrightarrow>
     \<exists>es. events st' = events st @ es \<and> lg (world st') = lg (world st) @ requests es"
  using C
proof (induction C onP pos q b d st and C onP pos b d i qs pr st and C onP pos b d i sq pr st
       arbitrary: r st' and rs pr' st' and br pr' st'
       rule: deepResearch_runBranches_branch.induct)
  case (1 C onP pos q b d st)
  from "1.prems"(1) show ?case
  proof (cases rule: deepResearchE)
    case (GenFails e w1)
    from generateSerpQueries_log[OF "1.prems"(2) GenFails(1)] GenFails(3)
    show ?thesis by (simp add: record_event_def requests_def)
  next
    case (Runs serpQueries w1 pr1 st1 results pr2)
    from reportProgress_events[OF Runs(2)]
    have ev1: "events st1 = events st @ Generated pos b d # (if onP then [Progress pos pr1] else [])"
      and w1: "world st1 = w1"
      by (auto simp: record_event_def)
    from "1.IH"[OF Runs(1)[symmetric] refl Runs(2)[unfolded firstUpdate_def, symmetric] Runs(3) "1.prems"(2)]
    obtain es where es: "events st' = events st1 @ es" "lg (world st') = lg (world st1) @ requests es"
      by blast
    from generateSerpQueries_log[OF "1.prems"(2) Runs(1)]
    have "lg w1 = lg (world st) @ [QueriesRequested b]" .
    with es ev1 w1 show ?thesis by (auto simp: requests_def)
  qed
next
  case (2 C onProgress pos breadth depth i progress st)
  then show ?case by (simp add: requests_def)
next
  case (3 C onP pos b d i sq rest pr st)
  from "3.prems"(1) show ?case
  proof (cases rule: runBranchesE)
    case (Branches r1 pr1 st1 rs2)
    from "3.IH"(1)[OF Branches(1) "3.prems"(2)]
    obtain es1 where es1: "events st1 = events st @ es1" "lg (world st1) = lg (world st) @ requests es1"
      by blast
    from "3.IH"(2)[OF Branches(1)[symmetric] refl Branches(2) "3.prems"(2)]
    obtain es2 where es2: "events st' = events st1 @ es2" "lg (world st') = lg (world st1) @ requests es2"
      by blast
    show ?thesis using es1 es2 by (auto simp: requests_append)
  qed
next
  case (4 C onP pos b d i sq pr st)
  from "4.prems"(1) show ?case
  proof (cases rule: branchE)
    case (SearchFails e w1)
    from search_log[OF "4.prems"(2) SearchFails(1)] SearchFails(4)
    show ?thesis by (simp add: record_event_def requests_def)
  next
    case (ExtractFails result w1 e w2)
    from search_log[OF "4.prems"(2) ExtractFails(1)] processSerpResult_log[OF "4.prems"(2) ExtractFails(2)]
      ExtractFails(5)
    show ?thesis by (simp add: record_event_def requests_def)
  next
    case (Recurses result w1 processedResult contents w2 st1 st2 r)
    from "4.IH"[OF Recurses(1)[symmetric] refl Recurses(2)[symmetric] refl refl Recurses(3,4)
                   Recurses(5)[unfolded deeperUpdate_def, symmetric] Recurses(6) "4.prems"(2)]
    obtain es where es: "events st' = events st2 @ es" "lg (world st') = lg (world st2) @ requests es"
      by blast
    from reportProgress_events[OF Recurses(5)]
    have ev2: "events st2 = events st @ Searched pos (query sq) # (if onP then [Progress pos pr'] else [])"
      and w2: "world st2 = w2"
      by (auto simp: Recurses(3) record_event_def)
    from search_log[OF "4.prems"(2) Recurses(1)] processSerpResult_log[OF "4.prems"(2) Recurses(2)]
    have "lg w2 = lg (world st) @ [SearchRequested (query sq)]" by simp
    with es ev2 w2 show ?thesis by (auto simp: requests_def)
  next
    case (Stops result w1 processedResult contents w2 st1 st2)
    from reportProgress_events[OF Stops(5)]
    have ev2: "events st2 = events st @ Searched pos (query sq) # (if onP then [Progress pos pr'] else [])"
      and w2: "world st2 = w2"
      by (auto simp: Stops(3) record_event_def)
    from search_log[OF "4.prems"(2) Stops(1)] processSerpResult_log[OF "4.prems"(2) Stops(2)]
    have "lg w2 = lg (world st) @ [SearchRequested (query sq)]" by simp
    with ev2 w2 show ?thesis unfolding Stops(7) by (auto simp: record_event_def requests_def)
  qed
qed

lemma withLog_sel:
  "world (withLog l st) = (world st, l)" "acc (withLog l st) = acc st"
  "events (withLog l st) = events st"
  by (simp_all add: withLog_def)

lemma withLog_record_event: "record_event e (withLog l st) = withLog l (record_event e st)"
  by (simp add: withLog_def record_event_def)

lemma withLog_world: "(withLog l st)\<lparr>world := (w, l')\<rparr> = withLog l' (st\<lparr>world := w\<rparr>)"
  by (simp add: withLog_def)

lemma withLog_world_acc:
  "(withLog l st)\<lparr>world := (w, l'), acc := a\<rparr> = withLog l' (st\<lparr>world := w, acc := a\<rparr>)"
  by (simp add: withLog_def)

lemma withLog_reportProgress:
  "reportProgress onP pos u pr st = (pr', st') \<Longrightarrow>
     reportProgress onP pos u pr (withLog l st) = (pr', withLog l st')"
  by (auto simp: reportProgress_def Let_def withLog_record_event)

lemma logging_generateSerpQueries:
  "generateSerpQueries C q (Some b) ls w = (r, w') \<Longrightarrow>
     generateSerpQueries (logging C) q (Some b) ls (w, l) = (r, (w', l @ [QueriesRequested b]))"
  by (auto simp: generateSerpQueries_def logging_def split: prod.splits sum.splits)

lemma logging_search:
  "search C q w = (r, w') \<Longrightarrow> search (logging C) q (w, l) = (r, (w', l @ [SearchRequested q]))"
  by (simp add: logging_def)

lemma logging_processSerpResult:
  "processSerpResult C q result w = (r, w') \<Longrightarrow>
     processSerpResult (logging C) q result (w, l) = (r, (w', l))"
  by (auto simp: processSerpResult_def logging_def Let_def split: prod.splits sum.splits)

lemma logging_conservative:
  "deepResearch C onP pos q b d st = (r, st') \<Longrightarrow>
     \<exists>l'. deepResearch (logging C) onP pos q b d (withLog l st) = (r, withLog l' st')"
  "runBranches C onP pos b d i qs pr st = (rs, pr', st') \<Longrightarrow>
     \<exists>l'. runBranches (logging C) onP pos b d i qs pr (withLog l st) = (rs, pr', withLog l' st')"
  "branch C onP pos b d i sq pr st = (br, pr', st') \<Longrightarrow>
     \<exists>l'. branch (logging C) onP pos b d i sq pr (withLog l st) = (br, pr', withLog l' st')"
proof (induction C onP pos q b d st and C onP pos b d i qs pr st and C onP pos b d i sq pr st
       arbitrary: r st' l and rs pr' st' l and br pr' st' l
       rule: deepResearch_runBranches_branch.induct)
  case (1 C onP pos q b d st)
  from "1.prems" show ?case
  proof (cases rule: deepResearchE)
    case (GenFails e w1)
    from logging_generateSerpQueries[OF GenFails(1), of l] GenFails(2,3)
    show ?thesis
      by (auto simp: deepResearch.simps withLog_sel withLog_world withLog_record_event)
  next
    case (Runs serpQueries w1 pr1 st1 results pr2)
    let ?l1 = "l @ [QueriesRequested b]"
    from "1.IH"[OF Runs(1)[symmetric] refl Runs(2)[unfolded firstUpdate_def, symmetric] Runs(3), of ?l1]
    obtain l' where rb: "runBranches (logging C) onP pos b d 0 serpQueries pr1 (withLog ?l1 st1)
        = (results, pr2, withLog l' st')" by blast
    from withLog_reportProgress[OF Runs(2), of ?l1]
    have rp: "reportProgress onP pos (firstUpdate serpQueries) (initialProgress b d)
        (record_event (Generated pos b d) ((withLog l st)\<lparr>world := (w1, ?l1)\<rparr>)) = (pr1, withLog ?l1 st1)"
      by (simp add: withLog_world withLog_record_event)
    from logging_generateSerpQueries[OF Runs(1), of l] rp rb Runs(4)
    have "deepResearch (logging C) onP pos q b d (withLog l st) = (r, withLog l' st')"
      by (simp add: deepResearch.simps withLog_sel firstUpdate_def split: sum.splits)
    then show ?thesis ..
  qed
next
  case (2 C onProgress pos breadth depth i progress st)
  then show ?case by auto
next
  case (3 C onP pos b d i sq rest pr st)
  from "3.prems"(1) show ?case
  proof (cases rule: runBranchesE)
    case (Branches r1 pr1 st1 rs2)
    from "3.IH"(1)[OF Branches(1), of l]
    obtain l1 where b1: "branch (logging C) onP pos b d i sq pr (withLog l st) = (r1, pr1, withLog l1 st1)"
      by blast
    from "3.IH"(2)[OF Branches(1)[symmetric] refl Branches(2), of l1]
    obtain l2 where b2: "runBranches (logging C) onP pos b d (Suc i) rest pr1 (withLog l1 st1)
        = (rs2, pr', withLog l2 st')" by blast
    from b1 b2 Branches(3) show ?thesis by auto
  qed
next
  case (4 C onP pos b d i sq pr st)
  from "4.prems"(1) show ?case
  proof (cases rule: branchE)
    case (SearchFails e w1)
    from logging_search[OF SearchFails(1), of l] SearchFails(2,3,4)
    show ?thesis
      by (auto simp: branch.simps withLog_sel withLog_world withLog_record_event)
  next
    case (ExtractFails result w1 e w2)
    from logging_search[OF ExtractFails(1), of l]
      logging_processSerpResult[OF ExtractFails(2), of "l @ [SearchRequested (query sq)]"]
      ExtractFails(3,4,5)
    show ?thesis
      by (auto simp: branch.simps withLog_sel withLog_world withLog_record_event)
  next
    case (Recurses result w1 processedResult contents w2 st1 st2 r)
    let ?l1 = "l @ [SearchRequested (query sq)]"
    from "4.IH"[OF Recurses(1)[symmetric] refl Recurses(2)[symmetric] refl refl Recurses(3,4)
                   Recurses(5)[unfolded deeperUpdate_def, symmetric] Recurses(6), of ?l1]
    obtain l' where dr: "deepResearch (logging C) onP (pos @ [i]) (nextQuery sq processedResult)
        (newBreadth b) (newDepth d) (withLog ?l1 st2) = (r, withLog l' st')" by blast
    from withLog_reportProgress[OF Recurses(5), of ?l1]
    have rp: "reportProgress onP pos (deeperUpdate b d pr sq) pr
        (record_event (Searched pos (query sq))
           ((withLog l st)\<lparr>world := (w2, ?l1), acc := pushAll processedResult result contents (acc st)\<rparr>))
        = (pr', withLog ?l1 st2)"
      by (simp add: Recurses(3) withLog_world_acc withLog_record_event)
    from logging_search[OF Recurses(1), of l] logging_processSerpResult[OF Recurses(2), of ?l1]
      rp dr Recurses(4,7)
    have "branch (logging C) onP pos b d i sq pr (withLog l st) = (br, pr', withLog l' st')"
      by (simp add: branch.simps withLog_sel deeperUpdate_def split: sum.splits)
    then show ?thesis ..
  next
    case (Stops result w1 processedResult contents w2 st1 st2)
    let ?l1 = "l @ [SearchRequested (query sq)]"
    from withLog_reportProgress[OF Stops(5), of ?l1]
    have rp: "reportProgress onP pos (stopUpdate pr sq) pr
        (record_event (Searched pos (query sq))
           ((withLog l st)\<lparr>world := (w2, ?l1), acc := pushAll processedResult result contents (acc st)\<rparr>))
        = (pr', withLog ?l1 st2)"
      by (simp add: Stops(3) withLog_world_acc withLog_record_event)
    from logging_search[OF Stops(1), of l] logging_processSerpResult[OF Stops(2), of ?l1]
      rp Stops(4,6,7)
    have "branch (logging C) onP pos b d i sq pr (withLog l st) = (br, pr', withLog ?l1 st')"
      by (simp add: branch.simps withLog_sel stopUpdate_def withLog_record_event)
    then show ?thesis ..
  qed
qed

lemma logging_requests:
  assumes "deepResearch C onP pos q b d st = (r, st')"
  shows "\<exists>l'. deepResearch (logging C) onP pos q b d (withLog l st) = (r, withLog l' st')
            \<and> l' = l @ requests (emitted st st')"
proof -
  from logging_conservative(1)[OF assms, of l]
  obtain l' where run: "deepResearch (logging C) onP pos q b d (withLog l st) = (r, withLog l' st')"
    by blast
  from journal_requests(1)[OF logging_logs run]
  obtain es where "events (withLog l' st') = events (withLog l st) @ es"
    "snd (world (withLog l' st')) = snd (world (withLog l st)) @ requests es" by blast
  then have "l' = l @ requests (emitted st st')"
    by (simp add: withLog_sel emitted_def)
  with run show ?thesis by blast
qed

lemma length_slice0: "0 \<le> n \<Longrightarrow> length (slice0 n xs) \<le> nat n"
  by (simp add: slice0_def)

section \<open>Running the concrete collaborators\<close>

lemmas run_simps = deepResearch.simps branch.simps generateSerpQueries_def
  processSerpResult_def slice0_def reportProgress_def record_event_def newBreadth_int newDepth_def
  mergeResults_def assign_def noUpdate_def initialProgress_def freshState_def emptyResult_def
  pushAll_def spreadSet_def setAdd_def emitted_def

lemma scenario_calls:
  "generateQueries scenario q n ls w =
     (Inr (if ls = Some [] \<or> ls = None
           then [\<lparr>query = ''Q1'', researchGoal = ''G1''\<rparr>, \<lparr>query = ''Q2'', researchGoal = ''G2''\<rparr>]
           else [\<lparr>query = ''Q2'', researchGoal = ''G2''\<rparr>]), Suc w)"
  "search scenario q w =
     (if q = ''Q1'' then Inr [\<lparr>url = Some ''http://u1'', markdown = Some ''page one''\<rparr>]
      else Inl TimeoutError, Suc w)"
  "generateLearnings scenario q contents w =
     (Inr \<lparr>learnings_x = [''L1''], followUpQuestions = [''F1'']\<rparr>, Suc w)"
  "generateReport scenario prompt ls' w = (Inr ''Body'', Suc w)"
  "generateFactCheck scenario report sources w =
     (Inr \<lparr>unsupportedFacts = [\<lparr>claim = ''c'', issue = ''i'', severity = HIGH\<rparr>],
            overallAssessment = ''A''\<rparr>, Suc w)"
  "trimPrompt scenario s k = take k s"
  by (simp_all add: scenario_def)

lemma steady_calls:
  "generateQueries steady q n ls w =
     (Inr (replicate (nat n) \<lparr>query = ''Q'', researchGoal = ''G''\<rparr>), Suc w)"
  "search steady q w = (Inr [\<lparr>url = Some ''http://u'', markdown = Some ''page''\<rparr>], Suc w)"
  "generateLearnings steady q contents w =
     (Inr \<lparr>learnings_x = [''L''], followUpQuestions = []\<rparr>, Suc w)"
  "trimPrompt steady s k = take k s"
  by (simp_all add: steady_def)

lemma scenario_run_3_2:
  "emitted (freshState 0) (snd (deepResearch scenario False [] ''topic'' 3 2 (freshState 0))) =
     [Generated [] 3 2, Searched [] ''Q1'', Generated [0] 2 1, Searched [0] ''Q2'', Searched [] ''Q2'']"
  by (simp add: run_simps scenario_calls)

lemma scenario_run_1_1:
  "deepResearch scenario False [] ''topic'' 1 1 (freshState 0) =
     (Inr \<lparr>learnings = [''L1''], visitedUrls = [''http://u1''], sourceContents = [''page one'']\<rparr>,
      \<lparr>world = 3,
        acc = \<lparr>learnings = [''L1''], visitedUrls = [''http://u1''], sourceContents = [''page one'']\<rparr>,
        events = [Generated [] 1 1, Searched [] ''Q1'', Terminal [] ''Q1'']\<rparr>)"
  by (simp add: run_simps scenario_calls)

lemma steady_report_calls:
  "generateReport steady prompt ls' w = (Inr ''Body'', Suc w)"
  "generateFactCheck steady report sources w =
     (Inr \<lparr>unsupportedFacts = [], overallAssessment = ''A''\<rparr>, Suc w)"
  by (simp_all add: steady_def)

lemma freshState_sel:
  "world (freshState w) = w" "acc (freshState w) = emptyResult" "events (freshState w) = []"
  by (simp_all add: freshState_def)

lemma scenario_run_0_1:
  "deepResearch scenario False [] ''topic'' 0 1 (freshState 0) =
     (Inr emptyResult, \<lparr>world = 1, acc = emptyResult, events = [Generated [] 0 1]\<rparr>)"
  by (simp add: run_simps scenario_calls)

lemma logging_steady_calls:
  "generateQueries (logging steady) q n ls wl =
     (Inr (replicate (nat n) \<lparr>query = ''Q'', researchGoal = ''G''\<rparr>), (Suc (fst wl), snd wl @ [QueriesRequested n]))"
  "search (logging steady) q wl =
     (Inr [\<lparr>url = Some ''http://u'', markdown = Some ''page''\<rparr>], (Suc (fst wl), snd wl @ [SearchRequested q]))"
  "generateLearnings (logging steady) q contents wl =
     (Inr \<lparr>learnings_x = [''L''], followUpQuestions = []\<rparr>, (Suc (fst wl), snd wl))"
  "trimPrompt (logging steady) s k = take k s"
  by (simp_all add: logging_def steady_calls)

lemma logging_steady_assumptions:
  "generatorReturnsAll (logging steady)" "searchSucceeds (logging steady)"
  "extractionSucceeds (logging steady)"
  by (simp_all add: generatorReturnsAll_def searchSucceeds_def extractionSucceeds_def
      logging_steady_calls)

lemma logging_steady_run_2_2:
  "deepResearch (logging steady) False [] ''topic'' 2 2 (freshState (0, [])) =
     (Inr \<lparr>learnings = [''L''], visitedUrls = [''http://u''], sourceContents = [''page'']\<rparr>,
      \<lparr>world = (11, [QueriesRequested 2, SearchRequested ''Q'', QueriesRequested 1, SearchRequested ''Q'',
                    SearchRequested ''Q'', QueriesRequested 1, SearchRequested ''Q'']),
       acc = \<lparr>learnings = [''L'', ''L'', ''L'', ''L''],
               visitedUrls = [''http://u'', ''http://u'', ''http://u'', ''http://u''],
               sourceContents = [''page'', ''page'', ''page'', ''page'']\<rparr>,
       events = [Generated [] 2 2, Searched [] ''Q'', Generated [0] 1 1, Searched [0] ''Q'', Terminal [0] ''Q'',
                 Searched [] ''Q'', Generated [1] 1 1, Searched [1] ''Q'', Terminal [1] ''Q'']\<rparr>)"
  by (simp add: run_simps logging_steady_calls numeral_2_eq_2)

lemma logging_steady_run_2_0:
  "deepResearch (logging steady) False [] ''topic'' 2 0 (freshState (0, [])) =
     (Inr \<lparr>learnings = [''L''], visitedUrls = [''http://u''], sourceContents = [''page'']\<rparr>,
      \<lparr>world = (5, [QueriesRequested 2, SearchRequested ''Q'', SearchRequested ''Q'']),
       acc = \<lparr>learnings = [''L'', ''L''],
               visitedUrls = [''http://u'', ''http://u''],
               sourceContents = [''page'', ''page'']\<rparr>,
       events = [Generated [] 2 0, Searched [] ''Q'', Terminal [] ''Q'', Searched [] ''Q'', Terminal [] ''Q'']\<rparr>)"
  by (simp add: run_simps logging_steady_calls numeral_2_eq_2)

section \<open>Levels of search\<close>

text \<open>
  C1. In the journal of a call with depth \<open>d\<close>, search levels counted from 1 at the
  top-level invocation: a branch stops (reaches the \<open>else\<close> of line 321) only at level
  \<open>max 1 d\<close>, which is \<open>d\<close> for \<open>d \<ge> 1\<close> and 1 for \<open>d = 0\<close>; no search is made
  below that level; and before a branch stops, one search has been made at each of the
  levels 1 to \<open>max 1 d\<close>, on the path from the top-level invocation to that branch. With a
  generator that returns as many queries as it is asked for, searches and extractions that
  succeed, and a breadth of at least 1, some branch does stop. The entries of the journal
  are the calls that the collaborators receive: a log of requests kept by the
  collaborators grows, during the call, by the request of each \<open>Generated\<close> and each
  \<open>Searched\<close> entry, one for one and in the order of the journal, and by nothing else;
  and whatever the collaborators are, the same call with such a log added to them returns
  the same result, with the same journal, arrays and outside world, and with that log.
\<close>

theorem depth_levels_of_search:
  assumes run: "deepResearch C onProgress [] q breadth depth st = (r, st')"
  shows "(\<forall>e\<in>set (emitted st st'). isTerminal e \<longrightarrow> level [] e = nat (max 1 depth))
    \<and> (\<forall>e\<in>set (emitted st st'). isSearched e \<longrightarrow> level [] e \<le> nat (max 1 depth))
    \<and> (\<forall>xs e ys. emitted st st' = xs @ e # ys \<longrightarrow> isTerminal e \<longrightarrow>
          (\<forall>k. 1 \<le> k \<and> k \<le> nat (max 1 depth) \<longrightarrow>
             (\<exists>s\<in>set xs. isSearched s \<and> level [] s = k \<and> prefix (position s) (position e))))
    \<and> (generatorReturnsAll C \<and> searchSucceeds C \<and> extractionSucceeds C \<and> 1 \<le> breadth \<longrightarrow>
          (\<exists>e\<in>set (emitted st st'). isTerminal e))
    \<and> (\<forall>lg. logsRequests lg C \<longrightarrow>
          lg (world st') = lg (world st) @ requests (emitted st st'))
    \<and> (\<forall>l. deepResearch (logging C) onProgress [] q breadth depth (withLog l st) =
            (r, withLog (l @ requests (emitted st st')) st'))"
proof -
  from journal_inSubtree(1)[OF run]
  obtain es where es: "events st' = events st @ es" "\<forall>e\<in>set es. inSubtree [] breadth depth e" by blast
  have em: "emitted st st' = es" by (rule emitted_append[OF es(1)])
  have ex: "\<exists>e\<in>set es. isTerminal e"
    if "generatorReturnsAll C \<and> searchSucceeds C \<and> extractionSucceeds C \<and> 1 \<le> breadth"
    using journal_reaches_terminal(1)[OF _ _ _ run] that es(1) by auto
  from journal_pathSearched(1)[OF run] es(1)
  have path: "pathSearched [] es" by auto
  have logged: "lg (world st') = lg (world st) @ requests es" if "logsRequests lg C" for lg
    using journal_requests(1)[OF that run] es(1) by auto
  have same: "deepResearch (logging C) onProgress [] q breadth depth (withLog l st) =
            (r, withLog (l @ requests es) st')" for l
    using logging_requests[OF run, of l] em by auto
  have tlev: "level [] e = nat (max 1 depth)" if "e \<in> set es" "isTerminal e" for e
    using es(2)[rule_format, OF that(1)] that(2)
    by (cases e) (auto simp: inSubtree_def level_def Let_def)
  have srch: "level [] e \<le> nat (max 1 depth)" if "e \<in> set es" "isSearched e" for e
    using es(2)[rule_format, OF that(1)] that(2)
    by (cases e) (auto simp: inSubtree_def level_def Let_def)
  have ord: "\<exists>s\<in>set xs. isSearched s \<and> level [] s = k \<and> prefix (position s) (position e)"
    if "es = xs @ e # ys" "isTerminal e" "1 \<le> k \<and> k \<le> nat (max 1 depth)" for xs e ys k
  proof -
    have "e \<in> set es" using that(1) by simp
    from tlev[OF this that(2)] have lv: "length (position e) + 1 = nat (max 1 depth)"
      by (simp add: level_def)
    with that(3) have k: "k - 1 \<le> length (position e)" by linarith
    with path that(1,2) obtain q' where "Searched (take (k - 1) (position e)) q' \<in> set xs"
      unfolding pathSearched_def by force
    moreover have "level [] (Searched (take (k - 1) (position e)) q') = k"
      using k that(3) by (simp add: level_def)
    moreover have "prefix (take (k - 1) (position e)) (position e)" by (rule take_is_prefix)
    ultimately show ?thesis by force
  qed
  show ?thesis unfolding em using ex tlev srch ord logged same by blast
qed

theorem depth_levels_of_search_witness:
  "generatorReturnsAll (logging steady) \<and> searchSucceeds (logging steady)
   \<and> extractionSucceeds (logging steady) \<and> (1::int) \<le> 2
   \<and> logsRequests snd (logging steady)
   \<and> emitted (freshState (0, [])) (snd (deepResearch (logging steady) False [] ''topic'' 2 2 (freshState (0, [])))) =
       [Generated [] 2 2, Searched [] ''Q'', Generated [0] 1 1, Searched [0] ''Q'', Terminal [0] ''Q'',
        Searched [] ''Q'', Generated [1] 1 1, Searched [1] ''Q'', Terminal [1] ''Q'']
   \<and> level [] (Terminal [0] ''Q'') = nat (max 1 2)
   \<and> level [] (Terminal [1] ''Q'') = nat (max 1 2)
   \<and> snd (world (snd (deepResearch (logging steady) False [] ''topic'' 2 2 (freshState (0, []))))) =
       [QueriesRequested 2, SearchRequested ''Q'', QueriesRequested 1, SearchRequested ''Q'',
        SearchRequested ''Q'', QueriesRequested 1, SearchRequested ''Q'']
   \<and> emitted (freshState (0, [])) (snd (deepResearch (logging steady) False [] ''topic'' 2 0 (freshState (0, [])))) =
       [Generated [] 2 0, Searched [] ''Q'', Terminal [] ''Q'', Searched [] ''Q'', Terminal [] ''Q'']
   \<and> level [] (Terminal [] ''Q'') = nat (max 1 0)
   \<and> snd (world (snd (deepResearch (logging steady) False [] ''topic'' 2 0 (freshState (0, []))))) =
       [QueriesRequested 2, SearchRequested ''Q'', SearchRequested ''Q'']"
  using depth_levels_of_search [OF logging_steady_run_2_2]
    depth_levels_of_search [OF logging_steady_run_2_0]
  by (simp add: logging_steady_run_2_2 logging_steady_run_2_0 logging_steady_assumptions
      logging_logs emitted_def freshState_sel)

section \<open>Breadth and depth of the recursive calls\<close>

text \<open>
  C5. Every generator call in the journal of a call with breadth \<open>b0\<close> and depth \<open>d0\<close>
  that comes from an invocation \<open>n\<close> levels below the top-level one asks for
  \<open>\<lceil>b0 / 2 ^ n\<rceil>\<close> queries and has depth \<open>d0 - n\<close>; and an invocation started by a
  branch of another one has the ceiling of half the breadth of that one and its depth
  less 1.
\<close>

theorem breadth_halves_per_level:
  assumes "deepResearch C onProgress [] q breadth depth st = (r, st')"
  shows "(\<forall>p b d. Generated p b d \<in> set (emitted st st') \<longrightarrow>
          b = \<lceil>real_of_int breadth / 2 ^ length p\<rceil> \<and> d = depth - int (length p))
    \<and> (\<forall>p i b d b' d'. Generated p b d \<in> set (emitted st st') \<longrightarrow>
          Generated (p @ [i]) b' d' \<in> set (emitted st st') \<longrightarrow>
          b' = \<lceil>real_of_int b / 2\<rceil> \<and> d' = d - 1)"
proof -
  from journal_inSubtree(1)[OF assms]
  obtain es where es: "events st' = events st @ es" "\<forall>e\<in>set es. inSubtree [] breadth depth e" by blast
  have em: "emitted st st' = es" by (rule emitted_append[OF es(1)])
  have gen: "b = (newBreadth ^^ length p) breadth \<and> d = depth - int (length p)"
    if "Generated p b d \<in> set es" for p b d
    using es(2)[rule_format, OF that] by (simp add: inSubtree_def Let_def)
  have child: "b' = newBreadth b \<and> d' = d - 1"
    if "Generated p b d \<in> set es" "Generated (p @ [i]) b' d' \<in> set es" for p i b d b' d'
    using gen[OF that(1)] gen[OF that(2)] by simp
  show ?thesis
    unfolding em using gen child
    by (auto simp: newBreadth_funpow newBreadth_def)
qed

theorem breadth_halves_per_level_witness:
  "emitted (freshState 0) (snd (deepResearch scenario False [] ''topic'' 3 2 (freshState 0))) =
     [Generated [] 3 2, Searched [] ''Q1'', Generated [0] 2 1, Searched [0] ''Q2'', Searched [] ''Q2'']
   \<and> (2::int) = \<lceil>real_of_int 3 / 2 ^ length [0::nat]\<rceil> \<and> (1::int) = 2 - int (length [0::nat])"
  using breadth_halves_per_level [of scenario False "''topic''" 3 2 "freshState 0"
      "fst (deepResearch scenario False [] ''topic'' 3 2 (freshState 0))"
      "snd (deepResearch scenario False [] ''topic'' 3 2 (freshState 0))"]
  by (simp add: scenario_run_3_2)

section \<open>Truncation to the breadth\<close>

text \<open>
  C10. For a call with breadth \<open>b \<ge> 0\<close>, the branches of the top-level invocation search
  for the queries of the first \<open>b\<close> pairs that the generator returned, in that order, and
  for nothing else, so for at most \<open>b\<close> queries. With \<open>b = 0\<close> the journal has no search
  and no branch at all, and when the generator returns, the result is the empty
  \<open>ResearchResult\<close>.
\<close>

theorem at_most_breadth_queries:
  assumes run: "deepResearch C onProgress [] q breadth depth st = (r, st')"
    and nonneg: "0 \<le> breadth"
  shows "length (searchedBy [] (emitted st st')) \<le> nat breadth
    \<and> (\<forall>queries w1.
          generateQueries C q breadth (Some (learnings (acc st))) (world st) = (Inr queries, w1) \<longrightarrow>
          searchedBy [] (emitted st st') = map query (take (nat breadth) queries))
    \<and> (breadth = 0 \<longrightarrow>
          (\<forall>e\<in>set (emitted st st'). \<not> isSearched e \<and> \<not> isTerminal e)
          \<and> (\<forall>queries w1.
                generateQueries C q breadth (Some (learnings (acc st))) (world st) = (Inr queries, w1) \<longrightarrow>
                r = Inr emptyResult))"
  using run
proof (cases rule: deepResearchE)
  case (GenFails e w1)
  then have "emitted st st' = [Generated [] breadth depth]"
    by (simp add: emitted_def record_event_def)
  moreover from GenFails(1) have "\<And>queries w1.
     generateQueries C q breadth (Some (learnings (acc st))) (world st) \<noteq> (Inr queries, w1)"
    by (auto simp: generateSerpQueries_def split: prod.splits sum.splits)
  ultimately show ?thesis by (auto simp: searchedBy_def)
next
  case (Runs serpQueries w1 pr1 st1 results pr2)
  from Runs(1) obtain queries where gq:
    "generateQueries C q breadth (Some (learnings (acc st))) (world st) = (Inr queries, w1)"
    and sq: "serpQueries = slice0 breadth queries"
    by (auto simp: generateSerpQueries_def split: prod.splits sum.splits)
  from reportProgress_events[OF Runs(2)]
  have ev1: "events st1 = events st @ Generated [] breadth depth # (if onProgress then [Progress [] pr1] else [])"
    by (auto simp: record_event_def)
  from runBranches_searchedBy[OF Runs(3)]
  obtain es where es: "events st' = events st1 @ es" "searchedBy [] es = map query serpQueries"
    "serpQueries = [] \<longrightarrow> es = []" by blast
  have em: "emitted st st' = (Generated [] breadth depth # (if onProgress then [Progress [] pr1] else [])) @ es"
    using es(1) ev1 by (simp add: emitted_def)
  have sb: "searchedBy [] (emitted st st') = map query serpQueries"
    unfolding em searchedBy_append es(2) by (simp add: searchedBy_def)
  have take: "serpQueries = take (nat breadth) queries"
    using sq nonneg by (simp add: slice0_def)
  have zero: "emitted st st' = Generated [] breadth depth # (if onProgress then [Progress [] pr1] else [])
              \<and> r = Inr emptyResult" if "breadth = 0"
  proof -
    from that take have "serpQueries = []" by simp
    with es(3) em Runs(3,4) show ?thesis
      by (simp add: mergeResults_def emptyResult_def spreadSet_def)
  qed
  show ?thesis
    using sb take gq zero by (auto simp: min_def)
qed

theorem at_most_breadth_queries_witness:
  "(0::int) \<le> 1
   \<and> generateQueries scenario ''topic'' 1 (Some []) 0 =
       (Inr [\<lparr>query = ''Q1'', researchGoal = ''G1''\<rparr>, \<lparr>query = ''Q2'', researchGoal = ''G2''\<rparr>], 1)
   \<and> searchedBy [] (emitted (freshState 0)
        (snd (deepResearch scenario False [] ''topic'' 1 1 (freshState 0)))) = [''Q1'']
   \<and> generateQueries scenario ''topic'' 0 (Some []) 0 =
       (Inr [\<lparr>query = ''Q1'', researchGoal = ''G1''\<rparr>, \<lparr>query = ''Q2'', researchGoal = ''G2''\<rparr>], 1)
   \<and> deepResearch scenario False [] ''topic'' 0 1 (freshState 0) =
       (Inr emptyResult, \<lparr>world = 1, acc = emptyResult, events = [Generated [] 0 1]\<rparr>)"
  using at_most_breadth_queries [of scenario False "''topic''" 1 1 "freshState 0"
      "fst (deepResearch scenario False [] ''topic'' 1 1 (freshState 0))"
      "snd (deepResearch scenario False [] ''topic'' 1 1 (freshState 0))"]
    at_most_breadth_queries [OF scenario_run_0_1]
  by (simp add: scenario_run_1_1 scenario_run_0_1 scenario_calls freshState_sel
      emitted_def searchedBy_def)

section \<open>Progress counts\<close>

lemma notificationsOf_Nil: "notificationsOf p [] = []"
  by (simp add: notificationsOf_def notifications_def)

lemma notificationsOf_Cons:
  "notificationsOf p (e # es) = (if position e = p then notification e else []) @ notificationsOf p es"
  by (simp add: notificationsOf_def notifications_def)

lemma notificationsOf_append:
  "notificationsOf p (xs @ ys) = notificationsOf p xs @ notificationsOf p ys"
  by (simp add: notificationsOf_def notifications_def)

lemma notificationsOf_none:
  "\<forall>e\<in>set es. position e \<noteq> p \<Longrightarrow> notificationsOf p es = []"
  by (induction es) (auto simp: notificationsOf_Nil notificationsOf_Cons)

lemma notificationsOf_below:
  "\<forall>e\<in>set es. prefix (pos @ [i]) (position e) \<Longrightarrow> notificationsOf pos es = []"
  by (rule notificationsOf_none) (auto simp: prefix_def)

lemma countsAscend_append:
  assumes m1: "countsAscend es1" and m2: "countsAscend es2"
    and b1: "countsBetween pos lo c es1" and b2: "countsBetween pos c hi es2"
    and w1: "\<forall>e\<in>set es1. position e = pos \<or> prefix (pos @ [i]) (position e)"
    and w2: "fromBranches pos (Suc i) es2"
  shows "countsAscend (es1 @ es2)"
  unfolding countsAscend_def
proof
  fix p
  show "sorted (map completedQueries (notificationsOf p (es1 @ es2)))"
  proof (cases "p = pos")
    case True
    have "\<forall>x\<in>set (notificationsOf pos es1). \<forall>y\<in>set (notificationsOf pos es2).
            completedQueries x \<le> completedQueries y"
      using b1 b2 unfolding countsBetween_def by fastforce
    with m1 m2 True show ?thesis
      by (auto simp: notificationsOf_append sorted_append countsAscend_def)
  next
    case False
    have "(\<forall>e\<in>set es1. position e \<noteq> p) \<or> (\<forall>e\<in>set es2. position e \<noteq> p)"
    proof (rule ccontr)
      assume "\<not> ?thesis"
      then obtain e1 e2 where e: "e1 \<in> set es1" "position e1 = p" "e2 \<in> set es2" "position e2 = p"
        by blast
      from w1 e(1,2) False have p1: "prefix (pos @ [i]) p" by auto
      from w2 e(3,4) False obtain j where j: "j \<ge> Suc i" "prefix (pos @ [j]) p"
        unfolding fromBranches_def by auto
      from p1 j(2) have "pos @ [i] = pos @ [j]"
        by (auto simp: prefix_def append_eq_append_conv2 append_eq_Cons_conv Cons_eq_append_conv)
      with j(1) show False by simp
    qed
    then have "notificationsOf p es1 = [] \<or> notificationsOf p es2 = []"
      using notificationsOf_none by blast
    with m1 m2 show ?thesis
      by (auto simp: notificationsOf_append countsAscend_def)
  qed
qed

lemma sorted_const: "\<forall>x\<in>set xs. x = (c::int) \<Longrightarrow> sorted xs"
  by (induction xs) auto

lemma countsAscend_own:
  assumes "countsAscend es" "\<forall>e\<in>set es. position e \<noteq> pos \<or> (\<forall>n\<in>set (notification e). c \<le> completedQueries n)"
    "\<forall>e\<in>set pre. position e = pos" "\<forall>n\<in>set (notifications pre). completedQueries n = c"
  shows "countsAscend (pre @ es)"
  unfolding countsAscend_def
proof
  fix p
  show "sorted (map completedQueries (notificationsOf p (pre @ es)))"
  proof (cases "p = pos")
    case True
    have pre: "notificationsOf pos pre = notifications pre"
      using assms(3) by (simp add: notificationsOf_def)
    have "\<forall>n\<in>set (notificationsOf pos es). c \<le> completedQueries n"
      using assms(2) by (auto simp: notificationsOf_def notifications_def)
    moreover have "sorted (map completedQueries (notifications pre))"
      by (rule sorted_const[where c = c]) (use assms(4) in auto)
    ultimately show ?thesis
      using assms(1,4) True pre
      by (auto simp: notificationsOf_append sorted_append countsAscend_def)
  next
    case False
    with assms(3) have "notificationsOf p pre = []" by (intro notificationsOf_none) auto
    with assms(1) show ?thesis by (simp add: notificationsOf_append countsAscend_def)
  qed
qed

lemma set_notificationsOf:
  "set (notificationsOf p es) = (\<Union>e\<in>{e \<in> set es. position e = p}. set (notification e))"
  by (auto simp: notificationsOf_def notifications_def)

lemma countsBetween_append:
  "countsBetween pos lo hi (xs @ ys) = (countsBetween pos lo hi xs \<and> countsBetween pos lo hi ys)"
  by (auto simp: countsBetween_def notificationsOf_append)

lemma countsBetween_mono:
  "countsBetween pos lo hi es \<Longrightarrow> lo' \<le> lo \<Longrightarrow> hi \<le> hi' \<Longrightarrow> countsBetween pos lo' hi' es"
  by (fastforce simp: countsBetween_def)

lemma countsBetween_below:
  "\<forall>e\<in>set es. prefix (pos @ [i]) (position e) \<Longrightarrow> countsBetween pos lo hi es"
  by (simp add: countsBetween_def notificationsOf_below)

lemma countsAscend_Nil: "countsAscend []"
  by (simp add: countsAscend_def notificationsOf_Nil)

lemma countsAscend_single: "countsAscend [e]"
  by (cases e) (auto simp: countsAscend_def notificationsOf_Cons notificationsOf_Nil)

lemma journal_countsAscend:
  "deepResearch C onP pos q b d st = (r, st') \<Longrightarrow>
     \<exists>es. events st' = events st @ es \<and> countsAscend es"
  "runBranches C onP pos b d i qs pr st = (rs, pr', st') \<Longrightarrow>
     \<exists>es. events st' = events st @ es \<and> countsAscend es
        \<and> countsBetween pos (completedQueries pr) (completedQueries pr') es
        \<and> completedQueries pr \<le> completedQueries pr' \<and> fromBranches pos i es"
  "branch C onP pos b d i sq pr st = (br, pr', st') \<Longrightarrow>
     \<exists>es. events st' = events st @ es \<and> countsAscend es
        \<and> countsBetween pos (completedQueries pr) (completedQueries pr') es
        \<and> completedQueries pr \<le> completedQueries pr'
        \<and> (\<forall>e\<in>set es. position e = pos \<or> prefix (pos @ [i]) (position e))"
proof (induction C onP pos q b d st and C onP pos b d i qs pr st and C onP pos b d i sq pr st
       arbitrary: r st' and rs pr' st' and br pr' st'
       rule: deepResearch_runBranches_branch.induct)
  case (1 C onP pos q b d st)
  from "1.prems" show ?case
  proof (cases rule: deepResearchE)
    case (GenFails e w1)
    then show ?thesis by (auto simp: record_event_def intro: countsAscend_single)
  next
    case (Runs serpQueries w1 pr1 st1 results pr2)
    define pre where "pre = Generated pos b d # (if onP then [Progress pos pr1] else [])"
    from reportProgress_events[OF Runs(2)]
    have ev1: "events st1 = events st @ pre" and c0: "completedQueries pr1 = 0"
      by (auto simp: record_event_def pre_def assign_def firstUpdate_def noUpdate_def initialProgress_def)
    from "1.IH"[OF Runs(1)[symmetric] refl Runs(2)[unfolded firstUpdate_def, symmetric] Runs(3)]
    obtain es where es: "events st' = events st1 @ es" "countsAscend es"
      "countsBetween pos (completedQueries pr1) (completedQueries pr2) es" by blast
    have "countsAscend (pre @ es)"
    proof (rule countsAscend_own[OF es(2), where pos = pos and c = 0])
      show "\<forall>e\<in>set es. position e \<noteq> pos \<or> (\<forall>n\<in>set (notification e). 0 \<le> completedQueries n)"
        using es(3) c0 unfolding countsBetween_def set_notificationsOf by fastforce
      show "\<forall>e\<in>set pre. position e = pos" by (auto simp: pre_def)
      show "\<forall>n\<in>set (notifications pre). completedQueries n = 0"
        using c0 by (auto simp: pre_def notifications_def)
    qed
    then show ?thesis using es(1) ev1 by auto
  qed
next
  case (2 C onProgress pos breadth depth i progress st)
  then show ?case
    by (simp add: countsAscend_Nil countsBetween_def notificationsOf_Nil fromBranches_def)
next
  case (3 C onP pos b d i sq rest pr st)
  from "3.prems"(1) show ?case
  proof (cases rule: runBranchesE)
    case (Branches r1 pr1 st1 rs2)
    from "3.IH"(1)[OF Branches(1)]
    obtain es1 where es1: "events st1 = events st @ es1" "countsAscend es1"
      "countsBetween pos (completedQueries pr) (completedQueries pr1) es1"
      "completedQueries pr \<le> completedQueries pr1"
      "\<forall>e\<in>set es1. position e = pos \<or> prefix (pos @ [i]) (position e)" by blast
    from "3.IH"(2)[OF Branches(1)[symmetric] refl Branches(2)]
    obtain es2 where es2: "events st' = events st1 @ es2" "countsAscend es2"
      "countsBetween pos (completedQueries pr1) (completedQueries pr') es2"
      "completedQueries pr1 \<le> completedQueries pr'"
      "fromBranches pos (Suc i) es2" by blast
    have asc: "countsAscend (es1 @ es2)"
      by (rule countsAscend_append[OF es1(2) es2(2) es1(3) es2(3) es1(5) es2(5)])
    have btw: "countsBetween pos (completedQueries pr) (completedQueries pr') (es1 @ es2)"
      unfolding countsBetween_append
      using countsBetween_mono[OF es1(3) order_refl es2(4)] countsBetween_mono[OF es2(3) es1(4) order_refl]
      by simp
    have frm: "fromBranches pos i (es1 @ es2)"
      using es1(5) es2(5) unfolding fromBranches_def
      by (auto intro: Suc_leD)
    show ?thesis using es1(1,4) es2(1,4) asc btw frm by auto
  qed
next
  case (4 C onP pos b d i sq pr st)
  from "4.prems"(1) show ?case
  proof (cases rule: branchE)
    case (SearchFails e w1)
    then show ?thesis
      by (auto simp: record_event_def countsBetween_def notificationsOf_Cons notificationsOf_Nil
          intro: countsAscend_single)
  next
    case (ExtractFails result w1 e w2)
    then show ?thesis
      by (auto simp: record_event_def countsBetween_def notificationsOf_Cons notificationsOf_Nil
          intro: countsAscend_single)
  next
    case (Recurses result w1 processedResult contents w2 st1 st2 r)
    define pre where "pre = Searched pos (query sq) # (if onP then [Progress pos pr'] else [])"
    from "4.IH"[OF Recurses(1)[symmetric] refl Recurses(2)[symmetric] refl refl Recurses(3,4)
                   Recurses(5)[unfolded deeperUpdate_def, symmetric] Recurses(6)]
    obtain es where es: "events st' = events st2 @ es" "countsAscend es" by blast
    from journal_inSubtree(1)[OF Recurses(6)] es(1)
    have sub: "\<forall>e\<in>set es. prefix (pos @ [i]) (position e)"
      by (auto dest: inSubtree_prefix)
    from reportProgress_events[OF Recurses(5)]
    have ev2: "events st2 = events st @ pre"
      and c1: "completedQueries pr' = completedQueries pr + 1"
      by (auto simp: Recurses(3) record_event_def pre_def assign_def deeperUpdate_def noUpdate_def)
    have asc: "countsAscend (pre @ es)"
    proof (rule countsAscend_own[OF es(2), where pos = pos and c = "completedQueries pr'"])
      show "\<forall>e\<in>set es. position e \<noteq> pos \<or> (\<forall>n\<in>set (notification e). completedQueries pr' \<le> completedQueries n)"
        using sub by (auto simp: prefix_def)
      show "\<forall>e\<in>set pre. position e = pos" by (auto simp: pre_def)
      show "\<forall>n\<in>set (notifications pre). completedQueries n = completedQueries pr'"
        by (auto simp: pre_def notifications_def)
    qed
    have btw: "countsBetween pos (completedQueries pr) (completedQueries pr') (pre @ es)"
      unfolding countsBetween_append
      using countsBetween_below[OF sub] c1
      by (auto simp: countsBetween_def pre_def notificationsOf_Cons notificationsOf_Nil)
    have pos: "\<forall>e\<in>set (pre @ es). position e = pos \<or> prefix (pos @ [i]) (position e)"
      using sub by (auto simp: pre_def)
    show ?thesis using es(1) ev2 asc btw pos c1 by auto
  next
    case (Stops result w1 processedResult contents w2 st1 st2)
    define pre where "pre = Searched pos (query sq) # (if onP then [Progress pos pr'] else [])"
    from reportProgress_events[OF Stops(5)]
    have ev2: "events st2 = events st @ pre"
      and c1: "completedQueries pr' = completedQueries pr + 1"
      by (auto simp: Stops(3) record_event_def pre_def assign_def stopUpdate_def noUpdate_def)
    have ev: "events st' = events st @ (pre @ [Terminal pos (query sq)])"
      using ev2 unfolding Stops(7) by (simp add: record_event_def)
    have asc: "countsAscend (pre @ [Terminal pos (query sq)])"
    proof (rule countsAscend_own[OF countsAscend_single, where pos = pos and c = "completedQueries pr'"])
      show "\<forall>e\<in>set [Terminal pos (query sq)]. position e \<noteq> pos \<or>
              (\<forall>n\<in>set (notification e). completedQueries pr' \<le> completedQueries n)" by simp
      show "\<forall>e\<in>set pre. position e = pos" by (auto simp: pre_def)
      show "\<forall>n\<in>set (notifications pre). completedQueries n = completedQueries pr'"
        by (auto simp: pre_def notifications_def)
    qed
    have btw: "countsBetween pos (completedQueries pr) (completedQueries pr') (pre @ [Terminal pos (query sq)])"
      using c1 by (auto simp: countsBetween_def pre_def notificationsOf_Cons notificationsOf_Nil)
    have pos: "\<forall>e\<in>set (pre @ [Terminal pos (query sq)]). position e = pos \<or> prefix (pos @ [i]) (position e)"
      by (auto simp: pre_def)
    have "completedQueries pr \<le> completedQueries pr'" using c1 by simp
    with ev asc btw pos show ?thesis by blast
  qed
qed

text \<open>
  C6, as amended. Line 244 builds a new progress object, with \<open>completedQueries\<close> at 0,
  in every invocation of \<open>deepResearch\<close>, and \<open>reportProgress\<close> hands that object to
  the sink, which all invocations share. Among the progress objects that one invocation
  hands to the sink, \<open>completedQueries\<close> never goes down.
\<close>

theorem completedQueries_monotone_per_invocation:
  assumes "deepResearch C onProgress pos q breadth depth st = (r, st')"
  shows "\<forall>p. sorted (map completedQueries (notificationsOf p (emitted st st')))"
proof -
  from journal_countsAscend(1)[OF assms]
  obtain es where "events st' = events st @ es" "countsAscend es" by blast
  then show ?thesis by (simp add: emitted_append countsAscend_def)
qed

lemma scenario_run_1_2:
  "emitted (freshState 0) (snd (deepResearch scenario True [] ''topic'' 1 2 (freshState 0))) =
     [Generated [] 1 2,
      Progress [] \<lparr>currentDepth = 2, totalDepth = 2, currentBreadth = 1, totalBreadth = 1,
                   currentQuery = Some ''Q1'', totalQueries = 1, completedQueries = 0\<rparr>,
      Searched [] ''Q1'',
      Progress [] \<lparr>currentDepth = 1, totalDepth = 2, currentBreadth = 1, totalBreadth = 1,
                   currentQuery = Some ''Q1'', totalQueries = 1, completedQueries = 1\<rparr>,
      Generated [0] 1 1,
      Progress [0] \<lparr>currentDepth = 1, totalDepth = 1, currentBreadth = 1, totalBreadth = 1,
                   currentQuery = Some ''Q2'', totalQueries = 1, completedQueries = 0\<rparr>,
      Searched [0] ''Q2'']"
  by (simp add: run_simps scenario_calls Let_def)

text \<open>
  C6 as stated fails: with breadth 1 and depth 2 the sink receives the counts 0 and 1 from
  the top-level invocation and then 0 from the recursive one.
\<close>

theorem completedQueries_not_monotone:
  "map completedQueries (notifications (emitted (freshState 0)
       (snd (deepResearch scenario True [] ''topic'' 1 2 (freshState 0))))) = [0, 1, 0]
   \<and> \<not> sorted (map completedQueries (notifications (emitted (freshState 0)
       (snd (deepResearch scenario True [] ''topic'' 1 2 (freshState 0))))))"
  by (simp add: scenario_run_1_2 notifications_def)

theorem completedQueries_monotone_per_invocation_witness:
  "map completedQueries (notificationsOf [] (emitted (freshState 0)
       (snd (deepResearch scenario True [] ''topic'' 1 2 (freshState 0))))) = [0, 1]
   \<and> map completedQueries (notificationsOf [0] (emitted (freshState 0)
       (snd (deepResearch scenario True [] ''topic'' 1 2 (freshState 0))))) = [0]
   \<and> sorted [0, 1 :: int]"
  using completedQueries_monotone_per_invocation [of scenario True "[]" "''topic''" 1 2 "freshState 0"
      "fst (deepResearch scenario True [] ''topic'' 1 2 (freshState 0))"
      "snd (deepResearch scenario True [] ''topic'' 1 2 (freshState 0))"]
  by (simp add: scenario_run_1_2 notificationsOf_def notifications_def)

section \<open>Failing branches\<close>






subsection \<open>An answer, case by case\<close>

text \<open>The equation of \<open>refresh\<close> is unfolded by name; \<open>respond\<close> through the case rule below.\<close>

declare refresh.simps [simp del]


subsection \<open>Admissions and the promise of the branches\<close>


lemma admit_settled: "map settled (admit n ts) = map settled ts"
  by (induction n ts rule: admit.induct) auto

lemma admit_length: "length (admit n ts) = length ts"
  by (induction n ts rule: admit.induct) auto






lemma admit_calmT: "list_all calmT (admit n ts) = list_all calmT ts"
  by (induction n ts rule: admit.induct) auto

lemma admit_contribution: "map contribution (admit n ts) = map contribution ts"
  by (induction n ts rule: admit.induct) auto









lemma refresh_outcome_sticky:
  "outcome c = Some r \<Longrightarrow> outcome (refresh a c) = Some r"
  by (cases c) (simp_all add: refresh.simps Let_def)


subsection \<open>What every answer preserves\<close>






lemma list_all_update: "list_all P ts \<Longrightarrow> P t \<Longrightarrow> list_all P (ts[i := t])"
  by (auto simp: list_all_iff dest!: set_update_subset_insert[THEN subsetD])




subsection \<open>The result of a call\<close>







lemma run_append: "run C f (ps @ qs) gc = run C f qs (run C f ps gc)"
  by (induction ps arbitrary: gc) auto


subsection \<open>The shared arrays of a call that does not recurse\<close>










subsection \<open>Every sequence of answers ends\<close>










subsection \<open>Failures, and the result when nothing is awaited any more\<close>







subsection \<open>Runs of the concrete collaborators\<close>

lemmas respond_simps = start_def generateSerpQueries_def slice0_def reportProgressTo_def
  firstUpdate_def deeperUpdate_def stopUpdate_def initialProgress_def assign_def noUpdate_def
  refresh.simps ConcurrencyLimit_def promiseAllOf_def rejection_def fulfilment_def
  searchResponds_def extractionResponds_def processSerpResult_def pushAll_def newDepth_def
  newBreadth_int mergeResults_def spreadSet_def setAdd_def emptyResult_def Let_def
  numeral_2_eq_2






text \<open>
  The order of the answers shows in the arrays that a call returns: with the answers for
  \<open>B\<close> before those for \<open>A\<close> the learning of \<open>B\<close> comes first, and with the
  answers in the order of the branches the call returns what \<open>deepResearch\<close>, which
  follows that order, computes.
\<close>

lemma twoPages_calls:
  "generateQueries twoPages q n ls w =
     (Inr [\<lparr>query = ''A'', researchGoal = ''GA''\<rparr>, \<lparr>query = ''B'', researchGoal = ''GB''\<rparr>], Suc w)"
  "search twoPages q w = (Inr [\<lparr>url = Some (''http://'' @ q), markdown = Some (''page '' @ q)\<rparr>], Suc w)"
  "generateLearnings twoPages q contents w =
     (Inr \<lparr>learnings_x = [''L'' @ q], followUpQuestions = []\<rparr>, Suc w)"
  "trimPrompt twoPages s k = take k s"
  by (simp_all add: twoPages_def)


lemma twoPages_answers_A_first:
  "run twoPages None [[], [0], [0], [1], [1]] (start ''topic'' 2 1 0 emptyResult) =
     ((5, \<lparr>learnings = [''LA'', ''LB''], visitedUrls = [''http://A'', ''http://B''],
            sourceContents = [''page A'', ''page B'']\<rparr>),
      Branching 2 1
        \<lparr>currentDepth = 0, totalDepth = 1, currentBreadth = 2, totalBreadth = 2,
          currentQuery = Some ''B'', totalQueries = 2, completedQueries = 2\<rparr>
        [Stopped [\<lparr>url = Some ''http://A'', markdown = Some ''page A''\<rparr>]
           \<lparr>learnings_x = [''LA''], followUpQuestions = []\<rparr> [''page A''],
         Stopped [\<lparr>url = Some ''http://B'', markdown = Some ''page B''\<rparr>]
           \<lparr>learnings_x = [''LB''], followUpQuestions = []\<rparr> [''page B'']]
        (Some (Inr \<lparr>learnings = [''LA'', ''LB''], visitedUrls = [''http://A'', ''http://B''],
                     sourceContents = [''page A'', ''page B'']\<rparr>)))"
  by (simp add: respond_simps twoPages_calls)

lemma twoPages_run_2_1:
  "deepResearch twoPages False [] ''topic'' 2 1 (freshState 0) =
     (Inr \<lparr>learnings = [''LA'', ''LB''], visitedUrls = [''http://A'', ''http://B''],
            sourceContents = [''page A'', ''page B'']\<rparr>,
      \<lparr>world = 5,
        acc = \<lparr>learnings = [''LA'', ''LB''], visitedUrls = [''http://A'', ''http://B''],
                sourceContents = [''page A'', ''page B'']\<rparr>,
        events = [Generated [] 2 1, Searched [] ''A'', Terminal [] ''A'', Searched [] ''B'', Terminal [] ''B'']\<rparr>)"
  by (simp add: run_simps twoPages_calls)

lemma twoPages_branch_order:
  "outcome (snd (run twoPages None [[], [0], [0], [1], [1]] (start ''topic'' 2 1 0 emptyResult))) =
     Some (fst (deepResearch twoPages False [] ''topic'' 2 1 (freshState 0)))
   \<and> fst (run twoPages None [[], [0], [0], [1], [1]] (start ''topic'' 2 1 0 emptyResult)) =
     (world (snd (deepResearch twoPages False [] ''topic'' 2 1 (freshState 0))),
      acc (snd (deepResearch twoPages False [] ''topic'' 2 1 (freshState 0))))"
  unfolding twoPages_answers_A_first twoPages_run_2_1 by simp




section \<open>Permits\<close>

lemma activeCount_update:
  "i < length bs \<Longrightarrow>
     activeCount (bs[i := x]) + (if holdsPermit (bs ! i) then 1 else 0)
       = activeCount bs + (if holdsPermit x then 1 else 0)"
proof (induction bs arbitrary: i)
  case Nil
  then show ?case by simp
next
  case (Cons b bs)
  then show ?case by (cases i) (auto simp: activeCount_def)
qed

lemma list_all_nth: "list_all P bs \<Longrightarrow> i < length bs \<Longrightarrow> P (bs ! i)"
  by (simp add: list_all_length)

lemma queued_gate:
  "activeCount (replicate n Queued) = 0" "list_all everyGateBelow (replicate n Queued)"
  by (induction n) (auto simp: activeCount_def)

lemma gateStep_everyGate: "gateStep c c' \<Longrightarrow> everyGate c \<Longrightarrow> everyGate c'"
proof (induction rule: gateStep.induct)
  case (start i bs breadth depth)
  from activeCount_update[OF start(1), of Running] start(2,3)
  have "activeCount (bs[i := Running]) \<le> ConcurrencyLimit" by simp
  with start(4) show ?case by (simp add: list_all_update)
next
  case (settle i bs breadth depth)
  from activeCount_update[OF settle(1), of Fulfilled] settle(2)
  have "activeCount (bs[i := Fulfilled]) \<le> activeCount bs" by simp
  with settle(3) show ?case by (simp add: list_all_update)
next
  case (recurse i bs depth breadth queries)
  let ?c = "Invocation (newBreadth breadth) (newDepth depth)
              (replicate (length (slice0 (newBreadth breadth) queries)) Queued)"
  from activeCount_update[OF recurse(1), of "Awaiting ?c"] recurse(2)
  have "activeCount (bs[i := Awaiting ?c]) = activeCount bs" by simp
  with recurse(4) show ?case by (simp add: list_all_update queued_gate)
next
  case (throw i bs depth breadth)
  from activeCount_update[OF throw(1), of Rejected] throw(2)
  have "activeCount (bs[i := Rejected]) \<le> activeCount bs" by simp
  with throw(4) show ?case by (simp add: list_all_update)
next
  case (inner i bs c c' breadth depth)
  from inner(5) have "list_all everyGateBelow bs" by simp
  from list_all_nth[OF this inner(1)] inner(2) have "everyGate c" by simp
  with inner(4) have c': "everyGate c'" by simp
  from activeCount_update[OF inner(1), of "Awaiting c'"] inner(2)
  have "activeCount (bs[i := Awaiting c']) = activeCount bs" by simp
  with inner(5) c' show ?case by (simp add: list_all_update)
next
  case (return i bs c breadth depth)
  from activeCount_update[OF return(1), of Fulfilled] return(2)
  have "activeCount (bs[i := Fulfilled]) \<le> activeCount bs" by simp
  with return(4) show ?case by (simp add: list_all_update)
next
  case (reject i bs c breadth depth)
  from reject(4) have "list_all everyGateBelow bs" by simp
  from list_all_nth[OF this reject(1)] reject(2) have c: "everyGate c" by simp
  from activeCount_update[OF reject(1), of "RejectedBehind c"] reject(2)
  have "activeCount (bs[i := RejectedBehind c]) \<le> activeCount bs" by simp
  with reject(4) c show ?case by (simp add: list_all_update)
next
  case (behind i bs c c' breadth depth)
  from behind(5) have "list_all everyGateBelow bs" by simp
  from list_all_nth[OF this behind(1)] behind(2) have "everyGate c" by simp
  with behind(4) have c': "everyGate c'" by simp
  from activeCount_update[OF behind(1), of "RejectedBehind c'"] behind(2)
  have "activeCount (bs[i := RejectedBehind c']) = activeCount bs" by simp
  with behind(5) c' show ?case by (simp add: list_all_update)
qed

lemma gateStep_keeps_budget:
  "gateStep c c' \<Longrightarrow> \<exists>bs'. c' = Invocation b d bs' \<Longrightarrow> \<exists>bs. c = Invocation b d bs"
  by (induction rule: gateStep.induct) auto

lemma gateStep_noRecursion:
  assumes "gateStep c c'" "c = Invocation b d bs" "\<not> newDepth d > 0" "noRecursion c"
  shows "noRecursion c' \<and> (\<exists>bs'. c' = Invocation b d bs')"
  using assms
proof (cases rule: gateStep.cases)
  case (start i bs0 breadth depth)
  with assms(2,4) show ?thesis
    by (auto simp: noRecursion_def dest!: set_update_subset_insert[THEN subsetD])
next
  case (settle i bs0 breadth depth)
  with assms(2,4) show ?thesis
    by (auto simp: noRecursion_def dest!: set_update_subset_insert[THEN subsetD])
next
  case (inner i bs0 c0 c0' breadth depth)
  with assms(4) have "Awaiting c0 \<in> set bs0 \<and> noRecursion (Invocation breadth depth bs0)"
    by (auto simp: in_set_conv_nth)
  then show ?thesis by (auto simp: noRecursion_def)
next
  case (return i bs0 c0 breadth depth)
  with assms(4) have "Awaiting c0 \<in> set bs0 \<and> noRecursion (Invocation breadth depth bs0)"
    by (auto simp: in_set_conv_nth)
  then show ?thesis by (auto simp: noRecursion_def)
next
  case (reject i bs0 c0 breadth depth)
  with assms(4) have "Awaiting c0 \<in> set bs0 \<and> noRecursion (Invocation breadth depth bs0)"
    by (auto simp: in_set_conv_nth)
  then show ?thesis by (auto simp: noRecursion_def)
next
  case (behind i bs0 c0 c0' breadth depth)
  with assms(4) have "RejectedBehind c0 \<in> set bs0 \<and> noRecursion (Invocation breadth depth bs0)"
    by (auto simp: in_set_conv_nth)
  then show ?thesis by (auto simp: noRecursion_def)
qed (use assms in auto)

lemma noRecursion_holds_nothing:
  assumes "noRecursion (Invocation b d bs)"
  shows "sum_list (map heldBelow bs) = 0"
proof -
  from assms have "\<forall>x\<in>set bs. heldBelow x = 0" by (auto simp: noRecursion_def)
  then show ?thesis by (induction bs) auto
qed

text \<open>
  C2, as amended. From the start of a top-level call on, each limiter taken alone has at
  most \<open>ConcurrencyLimit = 2\<close> of the branches of its own invocation running, in every
  invocation of the recursion tree; and as long as no branch recurses, which is so for
  every call with depth at most 1, the permits held in the whole tree are at most 2.
\<close>

theorem each_gate_bounded:
  assumes "rtranclp gateStep (topLevel breadth depth queries) s"
  shows "everyGate s \<and> ConcurrencyLimit = 2
    \<and> (depth \<le> 1 \<longrightarrow> heldPermits s \<le> ConcurrencyLimit)"
proof -
  have gates: "everyGate s"
    using assms
  proof (induction rule: rtranclp_induct)
    case base
    then show ?case by (simp add: topLevel_def queued_gate)
  next
    case (step y z)
    then show ?case using gateStep_everyGate by blast
  qed
  have flat: "noRecursion s \<and> (\<exists>bs. s = Invocation breadth depth bs)" if "depth \<le> 1"
    using assms
  proof (induction rule: rtranclp_induct)
    case base
    then show ?case by (simp add: topLevel_def noRecursion_def)
  next
    case (step y z)
    then obtain bs where "y = Invocation breadth depth bs" "noRecursion y" by blast
    from gateStep_noRecursion[OF step(2) this(1) _ this(2)] that
    show ?case by (simp add: newDepth_def)
  qed
  have "heldPermits s \<le> ConcurrencyLimit" if "depth \<le> 1"
  proof -
    from flat[OF that] obtain bs where s: "s = Invocation breadth depth bs" "noRecursion s" by blast
    then have z: "sum_list (map heldBelow bs) = 0" using noRecursion_holds_nothing by blast
    have "activeCount bs \<le> ConcurrencyLimit" using gates s(1) by simp
    then show ?thesis unfolding s(1) heldPermits.simps z by simp
  qed
  with gates show ?thesis by (simp add: ConcurrencyLimit_def)
qed

lemma two_levels_run:
  "rtranclp gateStep
     (topLevel 2 2 [\<lparr>query = ''Q1'', researchGoal = ''G1''\<rparr>, \<lparr>query = ''Q2'', researchGoal = ''G2''\<rparr>])
     (Invocation 2 2 [Awaiting (Invocation 1 1 [Running]), Awaiting (Invocation 1 1 [Running])])"
proof -
  let ?q = "[\<lparr>query = ''Q2'', researchGoal = ''G2''\<rparr>]"
  have s1: "gateStep (Invocation 2 2 [Queued, Queued]) (Invocation 2 2 [Running, Queued])"
    using gateStep.start[of 0 "[Queued, Queued]" 2 2]
    by (simp add: activeCount_def ConcurrencyLimit_def)
  have s2: "gateStep (Invocation 2 2 [Running, Queued]) (Invocation 2 2 [Running, Running])"
    using gateStep.start[of 1 "[Running, Queued]" 2 2]
    by (simp add: activeCount_def ConcurrencyLimit_def)
  have s3: "gateStep (Invocation 2 2 [Running, Running])
              (Invocation 2 2 [Awaiting (Invocation 1 1 [Queued]), Running])"
    using gateStep.recurse[of 0 "[Running, Running]" 2 2 ?q]
    by (simp add: newBreadth_int newDepth_def slice0_def)
  have s4: "gateStep (Invocation 2 2 [Awaiting (Invocation 1 1 [Queued]), Running])
              (Invocation 2 2 [Awaiting (Invocation 1 1 [Queued]), Awaiting (Invocation 1 1 [Queued])])"
    using gateStep.recurse[of 1 "[Awaiting (Invocation 1 1 [Queued]), Running]" 2 2 ?q]
    by (simp add: newBreadth_int newDepth_def slice0_def)
  have c: "gateStep (Invocation 1 1 [Queued]) (Invocation 1 1 [Running])"
    using gateStep.start[of 0 "[Queued]" 1 1]
    by (simp add: activeCount_def ConcurrencyLimit_def)
  have s5: "gateStep (Invocation 2 2 [Awaiting (Invocation 1 1 [Queued]), Awaiting (Invocation 1 1 [Queued])])
              (Invocation 2 2 [Awaiting (Invocation 1 1 [Running]), Awaiting (Invocation 1 1 [Queued])])"
    using gateStep.inner[of 0 "[Awaiting (Invocation 1 1 [Queued]), Awaiting (Invocation 1 1 [Queued])]"
        "Invocation 1 1 [Queued]" "Invocation 1 1 [Running]" 2 2] c
    by simp
  have s6: "gateStep (Invocation 2 2 [Awaiting (Invocation 1 1 [Running]), Awaiting (Invocation 1 1 [Queued])])
              (Invocation 2 2 [Awaiting (Invocation 1 1 [Running]), Awaiting (Invocation 1 1 [Running])])"
    using gateStep.inner[of 1 "[Awaiting (Invocation 1 1 [Running]), Awaiting (Invocation 1 1 [Queued])]"
        "Invocation 1 1 [Queued]" "Invocation 1 1 [Running]" 2 2] c
    by simp
  have t: "topLevel 2 2 [\<lparr>query = ''Q1'', researchGoal = ''G1''\<rparr>, \<lparr>query = ''Q2'', researchGoal = ''G2''\<rparr>]
             = Invocation 2 2 [Queued, Queued]"
    by (simp add: topLevel_def slice0_def)
  from s1 s2 s3 s4 s5 s6 show ?thesis unfolding t
    by (meson rtranclp.rtrancl_into_rtrancl rtranclp.rtrancl_refl)
qed

text \<open>
  C2 as stated fails: in a call with breadth 2 and depth 2, both branches of the
  top-level invocation hold a permit of its limiter while each waits for its recursive
  call, and the branch of each recursive call holds a permit of the limiter of that
  call: four permits are held at once.
\<close>

theorem permits_exceed_capacity:
  "rtranclp gateStep
     (topLevel 2 2 [\<lparr>query = ''Q1'', researchGoal = ''G1''\<rparr>, \<lparr>query = ''Q2'', researchGoal = ''G2''\<rparr>])
     (Invocation 2 2 [Awaiting (Invocation 1 1 [Running]), Awaiting (Invocation 1 1 [Running])])
   \<and> heldPermits (Invocation 2 2 [Awaiting (Invocation 1 1 [Running]), Awaiting (Invocation 1 1 [Running])]) = 4
   \<and> \<not> heldPermits (Invocation 2 2 [Awaiting (Invocation 1 1 [Running]), Awaiting (Invocation 1 1 [Running])])
         \<le> ConcurrencyLimit"
  using two_levels_run by (simp add: activeCount_def ConcurrencyLimit_def)

lemma one_level_run:
  "rtranclp gateStep
     (topLevel 3 1 [\<lparr>query = ''Q1'', researchGoal = ''G1''\<rparr>, \<lparr>query = ''Q2'', researchGoal = ''G2''\<rparr>,
                    \<lparr>query = ''Q3'', researchGoal = ''G3''\<rparr>])
     (Invocation 3 1 [Running, Running, Queued])"
proof -
  have s1: "gateStep (Invocation 3 1 [Queued, Queued, Queued]) (Invocation 3 1 [Running, Queued, Queued])"
    using gateStep.start[of 0 "[Queued, Queued, Queued]" 3 1]
    by (simp add: activeCount_def ConcurrencyLimit_def)
  have s2: "gateStep (Invocation 3 1 [Running, Queued, Queued]) (Invocation 3 1 [Running, Running, Queued])"
    using gateStep.start[of 1 "[Running, Queued, Queued]" 3 1]
    by (simp add: activeCount_def ConcurrencyLimit_def)
  have t: "topLevel 3 1 [\<lparr>query = ''Q1'', researchGoal = ''G1''\<rparr>, \<lparr>query = ''Q2'', researchGoal = ''G2''\<rparr>,
                    \<lparr>query = ''Q3'', researchGoal = ''G3''\<rparr>]
             = Invocation 3 1 [Queued, Queued, Queued]"
    by (simp add: topLevel_def slice0_def)
  from s1 s2 show ?thesis unfolding t
    by (meson rtranclp.rtrancl_into_rtrancl rtranclp.rtrancl_refl)
qed

theorem each_gate_bounded_witness:
  "rtranclp gateStep
     (topLevel 2 2 [\<lparr>query = ''Q1'', researchGoal = ''G1''\<rparr>, \<lparr>query = ''Q2'', researchGoal = ''G2''\<rparr>])
     (Invocation 2 2 [Awaiting (Invocation 1 1 [Running]), Awaiting (Invocation 1 1 [Running])])
   \<and> everyGate (Invocation 2 2 [Awaiting (Invocation 1 1 [Running]), Awaiting (Invocation 1 1 [Running])])
   \<and> activeCount [Awaiting (Invocation 1 1 [Running]), Awaiting (Invocation 1 1 [Running])] = 2
   \<and> activeCount [Running] = 1
   \<and> rtranclp gateStep
     (topLevel 3 1 [\<lparr>query = ''Q1'', researchGoal = ''G1''\<rparr>, \<lparr>query = ''Q2'', researchGoal = ''G2''\<rparr>,
                    \<lparr>query = ''Q3'', researchGoal = ''G3''\<rparr>])
     (Invocation 3 1 [Running, Running, Queued])
   \<and> (1::int) \<le> 1
   \<and> heldPermits (Invocation 3 1 [Running, Running, Queued]) = 2"
  using each_gate_bounded [OF two_levels_run] two_levels_run
    each_gate_bounded [OF one_level_run] one_level_run
  by (simp add: activeCount_def)

section \<open>Layout of the report\<close>

lemma scenario_report:
  "writeFinalReport scenario ''topic'' [''L1''] [''http://u1''] [''page one''] 0 =
     (Inr ''Body\<newline>\<newline>## Fact Check\<newline>\<newline>A\<newline>\<newline>### Potential Issues\<newline>\<newline>**[HIGH]** c\<newline>- i\<newline>\<newline>## Sources\<newline>\<newline>- http://u1'', 2)"
  by (simp add: writeFinalReport_def factCheck_def scenario_calls factCheckSection_def factLine_def
      severityString_def urlsSection_def)

text \<open>
  C8 as stated fails in the layout of a flagged claim: the report puts the issue on a
  line of its own, after a hyphen, under a heading \<open>### Potential Issues\<close>; the text
  \<open>**[HIGH]** c\<close>, em dash, \<open>i\<close> occurs nowhere in it.
\<close>

theorem flagged_claim_layout_differs:
  "writeFinalReport scenario ''topic'' [''L1''] [''http://u1''] [''page one''] 0 =
     (Inr ''Body\<newline>\<newline>## Fact Check\<newline>\<newline>A\<newline>\<newline>### Potential Issues\<newline>\<newline>**[HIGH]** c\<newline>- i\<newline>\<newline>## Sources\<newline>\<newline>- http://u1'', 2)
   \<and> \<not> sublist (specFactLine \<lparr>claim = ''c'', issue = ''i'', severity = HIGH\<rparr>)
         ''Body\<newline>\<newline>## Fact Check\<newline>\<newline>A\<newline>\<newline>### Potential Issues\<newline>\<newline>**[HIGH]** c\<newline>- i\<newline>\<newline>## Sources\<newline>\<newline>- http://u1''"
proof -
  have "CHR 0xE2 \<in> set (specFactLine \<lparr>claim = ''c'', issue = ''i'', severity = HIGH\<rparr>)"
    by (simp add: specFactLine_def emDash_def)
  moreover have "CHR 0xE2 \<notin> set ''Body\<newline>\<newline>## Fact Check\<newline>\<newline>A\<newline>\<newline>### Potential Issues\<newline>\<newline>**[HIGH]** c\<newline>- i\<newline>\<newline>## Sources\<newline>\<newline>- http://u1''"
    by simp
  ultimately have "\<not> sublist (specFactLine \<lparr>claim = ''c'', issue = ''i'', severity = HIGH\<rparr>)
         ''Body\<newline>\<newline>## Fact Check\<newline>\<newline>A\<newline>\<newline>### Potential Issues\<newline>\<newline>**[HIGH]** c\<newline>- i\<newline>\<newline>## Sources\<newline>\<newline>- http://u1''"
    using set_mono_sublist by blast
  with scenario_report show ?thesis by simp
qed

text \<open>
  C8, as amended. When the report writer returns a body and the fact check returns a
  result, \<open>writeFinalReport\<close> returns the body, then the section \<open>## Fact Check\<close>
  with the overall assessment and, when no fact is flagged, the fixed notice, else the
  heading \<open>### Potential Issues\<close> and for each flagged fact \<open>**[SEVERITY]** claim\<close>
  and on the next line \<open>- issue\<close>, the facts separated by an empty line, then the
  section \<open>## Sources\<close> with one line \<open>- url\<close> for each visited URL, in this order.
  The severity is written \<open>HIGH\<close>, \<open>MEDIUM\<close> or \<open>LOW\<close>.
\<close>

theorem report_layout:
  assumes "generateReport C prompt
             (trimPrompt C (join ''\<newline>'' (map (\<lambda>l. ''<learning>\<newline>'' @ l @ ''\<newline></learning>'') ls)) 150000) w
           = (Inr body, w1)"
    and "factCheck C body (Some contents) w1 = (Inr fc, w2)"
  shows "writeFinalReport C prompt ls urls contents w =
     (Inr (body
           @ ''\<newline>\<newline>## Fact Check\<newline>\<newline>'' @ overallAssessment fc @ ''\<newline>\<newline>''
           @ (if unsupportedFacts fc = []
              then ''### No Factual Issues Found\<newline>\<newline>All claims in the report appear to be well-supported by the source material.''
              else ''### Potential Issues\<newline>\<newline>''
                   @ join ''\<newline>\<newline>''
                       (map (\<lambda>f. ''**['' @ severityString (severity f) @ '']** '' @ claim f
                                   @ ''\<newline>- '' @ issue f)
                            (unsupportedFacts fc)))
           @ ''\<newline>\<newline>## Sources\<newline>\<newline>'' @ join ''\<newline>'' (map (\<lambda>u. ''- '' @ u) urls)), w2)
    \<and> (\<forall>f. severityString (severity f) \<in> {''HIGH'', ''MEDIUM'', ''LOW''})"
proof -
  have sev: "severityString s \<in> {''HIGH'', ''MEDIUM'', ''LOW''}" for s
    by (cases s) (simp_all add: severityString_def)
  have line: "factLine =
      (\<lambda>f. ''**['' @ severityString (severity f) @ '']** '' @ claim f @ ''\<newline>- '' @ issue f)"
    by (rule ext) (simp add: factLine_def)
  have whole: "writeFinalReport C prompt ls urls contents w =
      (Inr (body @ factCheckSection fc @ urlsSection urls), w2)"
    using assms by (simp add: writeFinalReport_def)
  have us: "urlsSection urls =
      ''\<newline>\<newline>## Sources\<newline>\<newline>'' @ join ''\<newline>'' (map (\<lambda>u. ''- '' @ u) urls)"
    by (simp only: urlsSection_def)
  have fcs: "factCheckSection fc =
      ''\<newline>\<newline>## Fact Check\<newline>\<newline>'' @ overallAssessment fc @ ''\<newline>\<newline>''
      @ (if unsupportedFacts fc = []
         then ''### No Factual Issues Found\<newline>\<newline>All claims in the report appear to be well-supported by the source material.''
         else ''### Potential Issues\<newline>\<newline>''
              @ join ''\<newline>\<newline>''
                  (map (\<lambda>f. ''**['' @ severityString (severity f) @ '']** '' @ claim f
                              @ ''\<newline>- '' @ issue f)
                       (unsupportedFacts fc)))"
    by (simp add: factCheckSection_def line)
  show ?thesis
    unfolding whole fcs us append_assoc by (intro conjI refl allI sev)
qed

theorem report_layout_witness:
  "generateReport scenario ''topic''
       (trimPrompt scenario (join ''\<newline>'' (map (\<lambda>l. ''<learning>\<newline>'' @ l @ ''\<newline></learning>'') [''L1''])) 150000) 0
     = (Inr ''Body'', 1)
   \<and> factCheck scenario ''Body'' (Some [''page one'']) 1 =
       (Inr \<lparr>unsupportedFacts = [\<lparr>claim = ''c'', issue = ''i'', severity = HIGH\<rparr>],
              overallAssessment = ''A''\<rparr>, 2)
   \<and> writeFinalReport scenario ''topic'' [''L1''] [''http://u1''] [''page one''] 0 =
     (Inr ''Body\<newline>\<newline>## Fact Check\<newline>\<newline>A\<newline>\<newline>### Potential Issues\<newline>\<newline>**[HIGH]** c\<newline>- i\<newline>\<newline>## Sources\<newline>\<newline>- http://u1'', 2)
   \<and> writeFinalReport steady ''topic'' [] [''http://u'', ''http://v''] [''page''] 0 =
     (Inr ''Body\<newline>\<newline>## Fact Check\<newline>\<newline>A\<newline>\<newline>### No Factual Issues Found\<newline>\<newline>All claims in the report appear to be well-supported by the source material.\<newline>\<newline>## Sources\<newline>\<newline>- http://u\<newline>- http://v'', 2)"
proof -
  have a: "generateReport scenario ''topic''
       (trimPrompt scenario (join ''\<newline>'' (map (\<lambda>l. ''<learning>\<newline>'' @ l @ ''\<newline></learning>'') [''L1''])) 150000) 0
     = (Inr ''Body'', 1)"
    by (simp add: scenario_calls)
  have b: "factCheck scenario ''Body'' (Some [''page one'']) 1 =
       (Inr \<lparr>unsupportedFacts = [\<lparr>claim = ''c'', issue = ''i'', severity = HIGH\<rparr>],
              overallAssessment = ''A''\<rparr>, 2)"
    by (simp add: factCheck_def scenario_calls)
  have a': "generateReport steady ''topic''
       (trimPrompt steady (join ''\<newline>'' (map (\<lambda>l. ''<learning>\<newline>'' @ l @ ''\<newline></learning>'') [])) 150000) 0
     = (Inr ''Body'', 1)"
    by (simp add: steady_report_calls)
  have b': "factCheck steady ''Body'' (Some [''page'']) 1 =
       (Inr \<lparr>unsupportedFacts = [], overallAssessment = ''A''\<rparr>, 2)"
    by (simp add: factCheck_def steady_report_calls steady_calls)
  have r: "writeFinalReport scenario ''topic'' [''L1''] [''http://u1''] [''page one''] 0 =
     (Inr ''Body\<newline>\<newline>## Fact Check\<newline>\<newline>A\<newline>\<newline>### Potential Issues\<newline>\<newline>**[HIGH]** c\<newline>- i\<newline>\<newline>## Sources\<newline>\<newline>- http://u1'', 2)"
    using report_layout [OF a b, of "[''http://u1'']", THEN conjunct1]
    by (simp add: severityString_def)
  have r': "writeFinalReport steady ''topic'' [] [''http://u'', ''http://v''] [''page''] 0 =
     (Inr ''Body\<newline>\<newline>## Fact Check\<newline>\<newline>A\<newline>\<newline>### No Factual Issues Found\<newline>\<newline>All claims in the report appear to be well-supported by the source material.\<newline>\<newline>## Sources\<newline>\<newline>- http://u\<newline>- http://v'', 2)"
    using report_layout [OF a' b', of "[''http://u'', ''http://v'']", THEN conjunct1]
    by simp
  from a b r r' show ?thesis by (intro conjI)
qed

end
